theory Spec2Isabelle
  imports Complex_Main "HOL-Library.AList"
begin

section \<open>Calendar dates\<close>

text \<open>
  A \<^verbatim>\<open>datetime.date\<close> is represented by its proleptic Gregorian ordinal
  (\<^verbatim>\<open>date.toordinal()\<close>): day 1 is 0001-01-01, a Monday.  Adding
  \<^verbatim>\<open>timedelta(days=n)\<close> adds \<open>n\<close> to the ordinal and comparing dates compares
  ordinals.  The ordinal is an unbounded integer here: the range limit of Python's date
  type (years 1 to 9999, beyond which date arithmetic raises OverflowError) is not part
  of the model.
\<close>

type_synonym date = int

definition add_days :: "date \<Rightarrow> int \<Rightarrow> date" where
  "add_days d n = d + n"

text \<open>\<^verbatim>\<open>date.isoweekday()\<close>: \<^verbatim>\<open>self.toordinal() % 7 or 7\<close>, Monday is 1 and Sunday is 7.\<close>

definition isoweekday :: "date \<Rightarrow> int" where
  "isoweekday d = (if d mod 7 = 0 then 7 else d mod 7)"

text \<open>
  The calendar arithmetic of the standard library's date type, after its reference
  implementation: \<^verbatim>\<open>_is_leap\<close>, \<^verbatim>\<open>_days_before_year\<close>, \<^verbatim>\<open>_days_in_month\<close>,
  \<^verbatim>\<open>_days_before_month\<close>, \<^verbatim>\<open>_ymd2ord\<close>, \<^verbatim>\<open>_ord2ymd\<close>, \<^verbatim>\<open>_isoweek1monday\<close> and
  \<^verbatim>\<open>date.isocalendar\<close>.  Python's \<^verbatim>\<open>divmod\<close> and \<^verbatim>\<open>//\<close> round towards minus
  infinity, as \<open>div\<close> and \<open>mod\<close> on \<open>int\<close> do.
\<close>

definition is_leap :: "int \<Rightarrow> bool" where
  "is_leap y \<longleftrightarrow> y mod 4 = 0 \<and> (y mod 100 \<noteq> 0 \<or> y mod 400 = 0)"

definition days_before_year :: "int \<Rightarrow> int" where
  "days_before_year y = (let y1 = y - 1 in y1 * 365 + y1 div 4 - y1 div 100 + y1 div 400)"

definition DAYS_IN_MONTH :: "int list" where
  "DAYS_IN_MONTH = [-1, 31, 28, 31, 30, 31, 30, 31, 31, 30, 31, 30, 31]"

definition DAYS_BEFORE_MONTH :: "int list" where
  "DAYS_BEFORE_MONTH = [-1, 0, 31, 59, 90, 120, 151, 181, 212, 243, 273, 304, 334]"

definition days_before_month :: "int \<Rightarrow> int \<Rightarrow> int" where
  "days_before_month y m =
     DAYS_BEFORE_MONTH ! nat m + (if m > 2 \<and> is_leap y then 1 else 0)"

definition ymd2ord :: "int \<Rightarrow> int \<Rightarrow> int \<Rightarrow> int" where
  "ymd2ord y m d = days_before_year y + days_before_month y m + d"

definition ord2ymd :: "int \<Rightarrow> int \<times> int \<times> int" where
  "ord2ymd ordinal =
     (let n = ordinal - 1;
          n400 = n div 146097; n = n mod 146097;
          y = n400 * 400 + 1;
          n100 = n div 36524; n = n mod 36524;
          n4 = n div 1461; n = n mod 1461;
          n1 = n div 365; n = n mod 365;
          y = y + n100 * 100 + n4 * 4 + n1
      in if n1 = 4 \<or> n100 = 4 then (y - 1, 12, 31)
         else
           let leapyear = (n1 = 3 \<and> (n4 \<noteq> 24 \<or> n100 = 3));
               m = (n + 50) div 32;
               preceding = DAYS_BEFORE_MONTH ! nat m + (if m > 2 \<and> leapyear then 1 else 0)
           in if preceding > n then
                let m' = m - 1;
                    preceding' = preceding
                      - (DAYS_IN_MONTH ! nat m' + (if m' = 2 \<and> leapyear then 1 else 0))
                in (y, m', n - preceding' + 1)
              else (y, m, n - preceding + 1))"

definition year_of :: "date \<Rightarrow> int" where
  "year_of d = fst (ord2ymd d)"

definition month_of :: "date \<Rightarrow> int" where
  "month_of d = fst (snd (ord2ymd d))"

definition day_of :: "date \<Rightarrow> int" where
  "day_of d = snd (snd (ord2ymd d))"

definition isoweek1monday :: "int \<Rightarrow> int" where
  "isoweek1monday y =
     (let firstday = ymd2ord y 1 1;
          firstweekday = (firstday + 6) mod 7;
          week1monday = firstday - firstweekday
      in if firstweekday > 3 then week1monday + 7 else week1monday)"

text \<open>\<^verbatim>\<open>date.isocalendar()\<close>: ISO year, ISO week number and ISO weekday.\<close>

definition isocalendar :: "date \<Rightarrow> int \<times> int \<times> int" where
  "isocalendar today =
     (let y = year_of today;
          week1monday = isoweek1monday y;
          week = (today - week1monday) div 7;
          day = (today - week1monday) mod 7
      in if week < 0 then
           let y' = y - 1;
               week1monday' = isoweek1monday y';
               week' = (today - week1monday') div 7;
               day' = (today - week1monday') mod 7
           in (y', week' + 1, day' + 1)
         else if week \<ge> 52 \<and> today \<ge> isoweek1monday (y + 1) then (y + 1, 1, day + 1)
         else (y, week + 1, day + 1))"

section \<open>Calendar resolver (utils.py)\<close>

text \<open>
  \<^verbatim>\<open>iso_week_period\<close>: the ISO year and week of a date with the Monday and the Sunday
  of that week.
\<close>

definition iso_week_period :: "date \<Rightarrow> int \<times> int \<times> date \<times> date" where
  "iso_week_period for_date =
     (case isocalendar for_date of (iso_year, iso_week, iso_weekday) \<Rightarrow>
        let monday = add_days for_date (- (iso_weekday - 1));
            sunday = add_days monday 6
        in (iso_year, iso_week, monday, sunday))"

definition week_in_month :: "date \<Rightarrow> int" where
  "week_in_month monday = (day_of monday - 1) div 7 + 1"

definition week_in_month_for_period :: "date \<Rightarrow> int" where
  "week_in_month_for_period monday = (let anchor = add_days monday 3 in week_in_month anchor)"

section \<open>Workday calculator (utils.py)\<close>

text \<open>\<^verbatim>\<open>holidays = holidays or set()\<close>: an absent set is the empty set.\<close>

definition or_empty :: "date set option \<Rightarrow> date set" where
  "or_empty s = (case s of None \<Rightarrow> {} | Some x \<Rightarrow> x)"

text \<open>
  The loop of \<^verbatim>\<open>workdays_in_range\<close>: \<open>cur\<close> runs from the start date while
  \<^verbatim>\<open>cur <= end_date\<close>; \<open>days\<close> is the list built so far.
\<close>

function workdays_loop :: "date set \<Rightarrow> date set \<Rightarrow> date \<Rightarrow> date \<Rightarrow> date list \<Rightarrow> date list" where
  "workdays_loop holidays workdays end_date cur days =
     (if cur \<le> end_date then
        (if cur \<in> workdays then
           workdays_loop holidays workdays end_date (add_days cur 1) (days @ [cur])
         else if isoweekday cur \<le> 5 \<and> cur \<notin> holidays then
           workdays_loop holidays workdays end_date (add_days cur 1) (days @ [cur])
         else
           workdays_loop holidays workdays end_date (add_days cur 1) days)
      else days)"
  by pat_completeness auto
termination
  by (relation "measure (\<lambda>(h, w, e, c, ds). nat (e - c + 1))") (auto simp: add_days_def)

declare workdays_loop.simps [simp del]

definition workdays_in_range :: "date \<Rightarrow> date \<Rightarrow> date set option \<Rightarrow> date set option \<Rightarrow> date list" where
  "workdays_in_range start_date end_date holidays workdays =
     workdays_loop (or_empty holidays) (or_empty workdays) end_date start_date []"

text \<open>
  \<^verbatim>\<open>workday_range\<close>: \<^verbatim>\<open>(None, None, 0)\<close> for an empty list, otherwise
  \<^verbatim>\<open>(days[0], days[-1], len(days))\<close>.
\<close>

definition workday_range ::
  "date \<Rightarrow> date \<Rightarrow> date set option \<Rightarrow> date set option \<Rightarrow> date option \<times> date option \<times> nat" where
  "workday_range start_date end_date holidays workdays =
     (let days = workdays_in_range start_date end_date holidays workdays in
      case days of
        [] \<Rightarrow> (None, None, 0)
      | d # ds \<Rightarrow> (Some d, Some (last (d # ds)), length (d # ds)))"

section \<open>Period registry (models.py, crud.py)\<close>

text \<open>
  A row of the table \<^verbatim>\<open>week_period\<close>.  The table carries a primary key on \<^verbatim>\<open>id\<close>
  and the uniqueness constraint \<^verbatim>\<open>uq_year_weekno\<close> on \<^verbatim>\<open>(year, week_no)\<close>.
\<close>

record WeekPeriod =
  wp_id :: int
  wp_year :: int
  wp_month :: int
  wp_week_no :: int
  wp_start_date :: date
  wp_end_date :: date

datatype db_error = IntegrityError

text \<open>
  \<^verbatim>\<open>db.scalar(select(WeekPeriod).where(and_(year == y, week_no == w)))\<close>: the first
  matching row, or nothing.
\<close>

definition select_period :: "WeekPeriod list \<Rightarrow> int \<Rightarrow> int \<Rightarrow> WeekPeriod option" where
  "select_period rows y w = find (\<lambda>r. wp_year r = y \<and> wp_week_no r = w) rows"

text \<open>The primary key the table assigns to a new row: one more than the largest in use.\<close>

definition next_id :: "WeekPeriod list \<Rightarrow> int" where
  "next_id rows = fold max (map wp_id rows) 0 + 1"

text \<open>
  \<^verbatim>\<open>db.add(period); db.commit(); db.refresh(period)\<close>: the insert is refused with
  an integrity error when a row of the same \<^verbatim>\<open>(year, week_no)\<close> is in the table;
  otherwise the row is stored under a new primary key and read back.
\<close>

definition insert_period ::
  "WeekPeriod list \<Rightarrow> int \<Rightarrow> int \<Rightarrow> int \<Rightarrow> date \<Rightarrow> date \<Rightarrow> db_error + (WeekPeriod list \<times> WeekPeriod)" where
  "insert_period rows y m w s e =
     (if \<exists>r \<in> set rows. wp_year r = y \<and> wp_week_no r = w then Inl IntegrityError
      else
        let period = \<lparr>wp_id = next_id rows, wp_year = y, wp_month = m, wp_week_no = w,
                        wp_start_date = s, wp_end_date = e\<rparr>
        in Inr (rows @ [period], period))"

text \<open>\<^verbatim>\<open>existing.month = month; db.commit()\<close>: the row of that primary key is updated.\<close>

definition update_month :: "WeekPeriod list \<Rightarrow> int \<Rightarrow> int \<Rightarrow> WeekPeriod list" where
  "update_month rows i m = map (\<lambda>r. if wp_id r = i then r\<lparr>wp_month := m\<rparr> else r) rows"

text \<open>
  \<^verbatim>\<open>ensure_period\<close>, with the table as the SELECT sees it and the table as it is
  when this call commits: \<open>others\<close> is what other sessions commit in between (the
  identity when the call runs alone).  The function has no exception handler, so an
  integrity error of the commit is the call's result.
\<close>

definition ensure_period_among ::
  "(WeekPeriod list \<Rightarrow> WeekPeriod list) \<Rightarrow> WeekPeriod list \<Rightarrow> date
     \<Rightarrow> db_error + (WeekPeriod list \<times> WeekPeriod)" where
  "ensure_period_among others rows for_date =
     (case iso_week_period for_date of (y, week_no, start_date, end_date) \<Rightarrow>
        (case select_period rows y week_no of
           Some existing \<Rightarrow>
             let anchor = add_days start_date 3;
                 m = month_of anchor
             in if wp_month existing \<noteq> m
                then Inr (update_month (others rows) (wp_id existing) m, existing\<lparr>wp_month := m\<rparr>)
                else Inr (others rows, existing)
         | None \<Rightarrow>
             insert_period (others rows) y (month_of (add_days start_date 3)) week_no
               start_date end_date))"

definition ensure_period ::
  "WeekPeriod list \<Rightarrow> date \<Rightarrow> db_error + (WeekPeriod list \<times> WeekPeriod)" where
  "ensure_period rows for_date = ensure_period_among (\<lambda>t. t) rows for_date"

text \<open>The constraints of the table: distinct primary keys, one row per \<^verbatim>\<open>(year, week_no)\<close>.\<close>

definition period_key :: "WeekPeriod \<Rightarrow> int \<times> int" where
  "period_key r = (wp_year r, wp_week_no r)"

definition table_ok :: "WeekPeriod list \<Rightarrow> bool" where
  "table_ok rows \<longleftrightarrow> distinct (map wp_id rows) \<and> distinct (map period_key rows)"

section \<open>Plan aggregation engine (models.py, crud.py)\<close>

text \<open>
  Hours are read from \<^verbatim>\<open>Numeric(6, 1)\<close> columns as decimals and converted with
  \<^verbatim>\<open>float\<close>.  The batch statistics are given twice: first with exact rational
  sums, then, further down, with every conversion, addition and rounding carried out in
  double precision as Python does.
\<close>

record PlanItemDetail =
  hours :: "rat option"

record PlanItem =
  plan_id :: int
  estimated_hours :: "rat option"
  details :: "PlanItemDetail list"

record WeeklyPlan =
  wplan_id :: int
  period_id :: int
  owner_user_id :: int
  status :: string

text \<open>
  The exceptions that the operations on plans raise: the \<^verbatim>\<open>ValueError\<close> of crud.py with
  its message, and the \<^verbatim>\<open>OverflowError\<close> of the database driver.
\<close>

datatype crud_error = OverflowError | ValueError string

text \<open>
  \<^verbatim>\<open>db.get(Model, key)\<close>: the row of that primary key, or \<^verbatim>\<open>None\<close>.  The key is
  bound as a 64-bit signed integer; for a Python integer outside that range the driver
  raises \<^verbatim>\<open>OverflowError\<close> and no row is looked up.
\<close>

definition in_int64 :: "int \<Rightarrow> bool" where
  "in_int64 i \<longleftrightarrow> - (2 ^ 63) \<le> i \<and> i < 2 ^ 63"

definition db_get :: "('a \<Rightarrow> int) \<Rightarrow> 'a list \<Rightarrow> int \<Rightarrow> crud_error + 'a option" where
  "db_get pk rows i =
     (if in_int64 i then Inr (find (\<lambda>r. pk r = i) rows) else Inl OverflowError)"

text \<open>\<^verbatim>\<open>get_plan\<close>: the result of \<^verbatim>\<open>db.get(models.WeeklyPlan, plan_id)\<close>.\<close>

definition get_plan :: "WeeklyPlan list \<Rightarrow> int \<Rightarrow> crud_error + WeeklyPlan option" where
  "get_plan plans pid = db_get wplan_id plans pid"

text \<open>\<^verbatim>\<open>set_plan_status\<close>: \<^verbatim>\<open>None\<close> for an unknown plan, otherwise the updated plan.\<close>

definition set_plan_status ::
  "WeeklyPlan list \<Rightarrow> int \<Rightarrow> string \<Rightarrow> crud_error + WeeklyPlan list \<times> WeeklyPlan option" where
  "set_plan_status plans pid new_status =
     (case db_get wplan_id plans pid of
        Inl e \<Rightarrow> Inl e
      | Inr None \<Rightarrow> Inr (plans, None)
      | Inr (Some plan) \<Rightarrow>
          let plan' = plan\<lparr>status := new_status\<rparr>
          in Inr (map (\<lambda>p. if wplan_id p = wplan_id plan then plan' else p) plans, Some plan'))"

text \<open>The relationship \<^verbatim>\<open>plan.items\<close>: the items whose foreign key is the plan's id.\<close>

definition items_of :: "PlanItem list \<Rightarrow> int \<Rightarrow> PlanItem list" where
  "items_of plan_items pid = filter (\<lambda>it. plan_id it = pid) plan_items"

text \<open>\<^verbatim>\<open>float(x or 0)\<close>: \<^verbatim>\<open>None\<close> and zero both give zero.\<close>

definition or_zero :: "rat option \<Rightarrow> rat" where
  "or_zero x = (case x of None \<Rightarrow> 0 | Some h \<Rightarrow> if h = 0 then 0 else h)"

text \<open>
  The inner loop over the details of one item: a detail without hours is skipped
  (\<^verbatim>\<open>continue\<close>), any other adds its hours to the running total.
\<close>

fun add_detail_hours :: "PlanItemDetail list \<Rightarrow> rat \<Rightarrow> rat" where
  "add_detail_hours [] tot = tot"
| "add_detail_hours (d # ds) tot =
     (case hours d of
        None \<Rightarrow> add_detail_hours ds tot
      | Some h \<Rightarrow> add_detail_hours ds (tot + h))"

text \<open>
  The decimal that Python's \<^verbatim>\<open>round(x, 1)\<close> selects for the exact value \<open>x\<close> of its
  argument: the multiple of one tenth nearest to \<open>x\<close>; when two multiples are equally
  near, the one with the even last digit.
\<close>

definition round_half_even :: "rat \<Rightarrow> int" where
  "round_half_even y =
     (let f = \<lfloor>y\<rfloor>; r = y - of_int f
      in if r < 1 / 2 then f
         else if r > 1 / 2 then f + 1
         else if even f then f else f + 1)"

definition py_round1 :: "rat \<Rightarrow> rat" where
  "py_round1 x = of_int (round_half_even (x * 10)) / 10"

record plan_stats =
  estimated :: rat
  actual :: rat
  items :: nat

definition zero_stats :: plan_stats where
  "zero_stats = \<lparr>estimated = 0, actual = 0, items = 0\<rparr>"

text \<open>
  One pass of the loop \<^verbatim>\<open>for it in items\<close> of \<^verbatim>\<open>get_plan_item_stats\<close>, in exact
  arithmetic.
\<close>

definition stats_step :: "PlanItem \<Rightarrow> (int \<rightharpoonup> plan_stats) \<Rightarrow> (int \<rightharpoonup> plan_stats)" where
  "stats_step it stats =
     (let stats' = (case stats (plan_id it) of
                      None \<Rightarrow> stats(plan_id it \<mapsto> zero_stats)
                    | Some _ \<Rightarrow> stats);
          s = (case stats' (plan_id it) of None \<Rightarrow> zero_stats | Some v \<Rightarrow> v);
          est = or_zero (estimated_hours it);
          act = (if details it \<noteq> [] then add_detail_hours (details it) 0 else est)
      in stats'(plan_id it \<mapsto>
           \<lparr>estimated = estimated s + est, actual = actual s + act, items = items s + 1\<rparr>))"

definition round_stats :: "plan_stats \<Rightarrow> plan_stats" where
  "round_stats v = v\<lparr>estimated := py_round1 (estimated v), actual := py_round1 (actual v)\<rparr>"

definition get_plan_item_stats :: "PlanItem list \<Rightarrow> int list \<Rightarrow> (int \<rightharpoonup> plan_stats)" where
  "get_plan_item_stats plan_items plan_ids =
     (if plan_ids = [] then Map.empty
      else
        let stats = fold (\<lambda>pid m. m(pid \<mapsto> zero_stats)) plan_ids Map.empty;
            selected = filter (\<lambda>it. plan_id it \<in> set plan_ids) plan_items;
            stats = fold stats_step selected stats
        in (\<lambda>pid. map_option round_stats (stats pid)))"

section \<open>Double-precision arithmetic\<close>

text \<open>
  A Python float is a binary double: a number \<open>m * 2^e\<close> with \<open>\<bar>m\<bar> < 2^53\<close>.  Every
  conversion and every addition yields the double nearest to the exact result, a tie
  going to the even significand.  \<open>ulp x\<close> is the spacing of the doubles around a
  positive \<open>x\<close>: the power of two \<open>u\<close> with \<open>2^52 * u \<le> x < 2^53 * u\<close>.  The exponent is
  not limited here: the hours of this program are far from the overflow and the
  subnormal range.
\<close>

function ulp_hi :: "rat \<Rightarrow> rat" where
  "ulp_hi x = (if x < 2 ^ 53 then 1 else 2 * ulp_hi (x / 2))"
  by pat_completeness auto
termination
proof (relation "measure (\<lambda>x. nat \<lfloor>x\<rfloor>)")
  show "wf (measure (\<lambda>x::rat. nat \<lfloor>x\<rfloor>))" by simp
next
  fix x :: rat
  assume "\<not> x < 2 ^ 53"
  then have x: "2 \<le> x" by simp
  have "of_int \<lfloor>x / 2\<rfloor> \<le> x / 2" by (rule of_int_floor_le)
  also have "x / 2 \<le> x - 1" using x by simp
  finally have "of_int (\<lfloor>x / 2\<rfloor> + 1) \<le> x" by simp
  then have "\<lfloor>x / 2\<rfloor> + 1 \<le> \<lfloor>x\<rfloor>"
    by (simp only: le_floor_iff)
  moreover have "0 \<le> \<lfloor>x / 2\<rfloor>" using x by (simp add: zero_le_floor)
  ultimately have "nat \<lfloor>x / 2\<rfloor> < nat \<lfloor>x\<rfloor>"
    by linarith
  then show "(x / 2, x) \<in> measure (\<lambda>x. nat \<lfloor>x\<rfloor>)"
    by (simp only: in_measure)
qed

function ulp_lo :: "rat \<Rightarrow> rat" where
  "ulp_lo x = (if x \<le> 0 \<or> 2 ^ 52 \<le> x then 1 else ulp_lo (2 * x) / 2)"
  by pat_completeness auto
termination
proof (relation "measure (\<lambda>x. nat \<lceil>2 ^ 52 / x\<rceil>)")
  show "wf (measure (\<lambda>x::rat. nat \<lceil>2 ^ 52 / x\<rceil>))" by simp
next
  fix x :: rat
  assume "\<not> (x \<le> 0 \<or> 2 ^ 52 \<le> x)"
  then have x: "0 < x" "x < 2 ^ 52" by simp_all
  define y where "y = 2 ^ 52 / x"
  have y: "1 < y" unfolding y_def using x by simp
  have half: "2 ^ 52 / (2 * x) = y / 2" unfolding y_def by simp
  have c2: "2 \<le> \<lceil>y\<rceil>"
    using y by (simp add: le_ceiling_iff)
  have "\<lceil>y / 2\<rceil> < \<lceil>y\<rceil>"
  proof (cases "y \<le> 2")
    case True
    then have "\<lceil>y / 2\<rceil> \<le> 1" by (simp add: ceiling_le_iff)
    with c2 show ?thesis by linarith
  next
    case False
    have "y / 2 \<le> y - 1" using False by simp
    also have "y - 1 \<le> of_int \<lceil>y\<rceil> - 1" by simp
    finally have "y / 2 \<le> of_int (\<lceil>y\<rceil> - 1)" by simp
    then have "\<lceil>y / 2\<rceil> \<le> \<lceil>y\<rceil> - 1"
      by (simp only: ceiling_le_iff)
    then show ?thesis by linarith
  qed
  with c2 have "nat \<lceil>y / 2\<rceil> < nat \<lceil>y\<rceil>"
    by linarith
  then have "nat \<lceil>2 ^ 52 / (2 * x)\<rceil> < nat \<lceil>2 ^ 52 / x\<rceil>"
    unfolding half unfolding y_def .
  then show "(2 * x, x) \<in> measure (\<lambda>x. nat \<lceil>2 ^ 52 / x\<rceil>)"
    by (simp only: in_measure)
qed

declare ulp_hi.simps [simp del] ulp_lo.simps [simp del]

definition ulp :: "rat \<Rightarrow> rat" where
  "ulp x = (if 2 ^ 52 \<le> x then ulp_hi x else ulp_lo x)"

text \<open>The double nearest to \<open>x\<close>.\<close>

definition rnd :: "rat \<Rightarrow> rat" where
  "rnd x = (if x = 0 then 0 else let u = ulp \<bar>x\<bar> in of_int (round_half_even (x / u)) * u)"

text \<open>
  \<^verbatim>\<open>round(x, 1)\<close> of a float: the decimal with one digit selected for the exact value of
  \<open>x\<close>, converted back to a double.
\<close>

definition round1_f64 :: "rat \<Rightarrow> rat" where
  "round1_f64 x = rnd (py_round1 x)"

text \<open>
  The loop over the details of one item in double precision:
  \<^verbatim>\<open>total += float(d.hours)\<close> converts the decimal and rounds the sum.
\<close>

fun add_detail_hours_f64 :: "PlanItemDetail list \<Rightarrow> rat \<Rightarrow> rat" where
  "add_detail_hours_f64 [] tot = tot"
| "add_detail_hours_f64 (d # ds) tot =
     (case hours d of
        None \<Rightarrow> add_detail_hours_f64 ds tot
      | Some h \<Rightarrow> add_detail_hours_f64 ds (rnd (tot + rnd h)))"

text \<open>The loop of \<^verbatim>\<open>sum_plan_hours\<close> over the items of the plan.\<close>

fun sum_items_loop :: "PlanItem list \<Rightarrow> rat \<Rightarrow> rat" where
  "sum_items_loop [] tot = tot"
| "sum_items_loop (item # rest) tot =
     (if details item \<noteq> [] then sum_items_loop rest (add_detail_hours_f64 (details item) tot)
      else sum_items_loop rest (rnd (tot + rnd (or_zero (estimated_hours item)))))"

text \<open>\<^verbatim>\<open>sum_plan_hours\<close>: the float 0.0 for an unknown plan, otherwise the running total.\<close>

definition sum_plan_hours :: "WeeklyPlan list \<Rightarrow> PlanItem list \<Rightarrow> int \<Rightarrow> crud_error + rat" where
  "sum_plan_hours plans plan_items pid =
     (case db_get wplan_id plans pid of
        Inl e \<Rightarrow> Inl e
      | Inr None \<Rightarrow> Inr 0
      | Inr (Some plan) \<Rightarrow> Inr (sum_items_loop (items_of plan_items (wplan_id plan)) 0))"

text \<open>One pass of the loop \<^verbatim>\<open>for it in items\<close> of \<^verbatim>\<open>get_plan_item_stats\<close> on floats.\<close>

definition stats_step_f64 :: "PlanItem \<Rightarrow> (int \<rightharpoonup> plan_stats) \<Rightarrow> (int \<rightharpoonup> plan_stats)" where
  "stats_step_f64 it stats =
     (let stats' = (case stats (plan_id it) of
                      None \<Rightarrow> stats(plan_id it \<mapsto> zero_stats)
                    | Some _ \<Rightarrow> stats);
          s = (case stats' (plan_id it) of None \<Rightarrow> zero_stats | Some v \<Rightarrow> v);
          est = rnd (or_zero (estimated_hours it));
          act = (if details it \<noteq> [] then add_detail_hours_f64 (details it) 0 else est)
      in stats'(plan_id it \<mapsto>
           \<lparr>estimated = rnd (estimated s + est), actual = rnd (actual s + act),
            items = items s + 1\<rparr>))"

text \<open>The dictionary \<^verbatim>\<open>stats\<close> after the loop over the items, before the rounding loop.\<close>

definition stats_accumulated_f64 :: "PlanItem list \<Rightarrow> int list \<Rightarrow> (int \<rightharpoonup> plan_stats)" where
  "stats_accumulated_f64 plan_items plan_ids =
     (let stats = fold (\<lambda>pid m. m(pid \<mapsto> zero_stats)) plan_ids Map.empty;
          selected = filter (\<lambda>it. plan_id it \<in> set plan_ids) plan_items
      in fold stats_step_f64 selected stats)"

definition round_stats_f64 :: "plan_stats \<Rightarrow> plan_stats" where
  "round_stats_f64 v = v\<lparr>estimated := round1_f64 (estimated v), actual := round1_f64 (actual v)\<rparr>"

text \<open>\<^verbatim>\<open>get_plan_item_stats\<close> with the arithmetic of Python floats.\<close>

definition get_plan_item_stats_f64 :: "PlanItem list \<Rightarrow> int list \<Rightarrow> (int \<rightharpoonup> plan_stats)" where
  "get_plan_item_stats_f64 plan_items plan_ids =
     (if plan_ids = [] then Map.empty
      else
        let stats = stats_accumulated_f64 plan_items plan_ids
        in (\<lambda>pid. map_option round_stats_f64 (stats pid)))"

section \<open>Scheduled sending (scheduler.py, emailer.py)\<close>

text \<open>Python's \<^verbatim>\<open>str\<close> of an integer: decimal digits, a minus sign when negative.\<close>

definition digit_char :: "nat \<Rightarrow> char" where
  "digit_char k = char_of (48 + k)"

function str_nat :: "nat \<Rightarrow> string" where
  "str_nat n = (if n < 10 then [digit_char n] else str_nat (n div 10) @ [digit_char (n mod 10)])"
  by pat_completeness auto
termination
  by (relation "measure (\<lambda>n. n)") auto

declare str_nat.simps [simp del]

definition str_int :: "int \<Rightarrow> string" where
  "str_int i = (if i < 0 then CHR ''-'' # str_nat (nat (- i)) else str_nat (nat i))"

text \<open>The period key \<^verbatim>\<open>f"{period.year}-W{period.week_no}"\<close>.\<close>

definition period_key_str :: "WeekPeriod \<Rightarrow> string" where
  "period_key_str period = str_int (wp_year period) @ ''-W'' @ str_int (wp_week_no period)"

text \<open>
  \<^verbatim>\<open>str.strip()\<close> and \<^verbatim>\<open>int(str)\<close> on ASCII text: white space is removed at both
  ends; an optional sign is followed by decimal digits, single underscores allowed
  between digits; anything else is a \<^verbatim>\<open>ValueError\<close>, here \<open>None\<close>.
\<close>

definition is_space :: "char \<Rightarrow> bool" where
  "is_space c \<longleftrightarrow> (let k = (of_char c :: nat) in (9 \<le> k \<and> k \<le> 13) \<or> (28 \<le> k \<and> k \<le> 32))"

definition strip :: "string \<Rightarrow> string" where
  "strip s = rev (dropWhile is_space (rev (dropWhile is_space s)))"

definition is_digit :: "char \<Rightarrow> bool" where
  "is_digit c \<longleftrightarrow> (let k = (of_char c :: nat) in 48 \<le> k \<and> k \<le> 57)"

fun digits_value :: "string \<Rightarrow> int \<Rightarrow> int option" where
  "digits_value [] acc = Some acc"
| "digits_value [c] acc =
     (if is_digit c then Some (acc * 10 + (int (of_char c) - 48)) else None)"
| "digits_value (c # u # cs) acc =
     (if is_digit c then
        (if u = CHR ''_'' then
           (if cs = [] then None else digits_value cs (acc * 10 + (int (of_char c) - 48)))
         else digits_value (u # cs) (acc * 10 + (int (of_char c) - 48)))
      else None)"

definition py_int :: "string \<Rightarrow> int option" where
  "py_int s =
     (let t = strip s;
          neg = (t \<noteq> [] \<and> hd t = CHR ''-'');
          body = (if t \<noteq> [] \<and> (hd t = CHR ''-'' \<or> hd t = CHR ''+'') then tl t else t)
      in if body = [] then None
         else map_option (\<lambda>v. if neg then - v else v) (digits_value body 0))"

text \<open>\<^verbatim>\<open>raw.split(":", 1)\<close>: the text before the first colon and, if there is one, the rest.\<close>

definition split_colon :: "string \<Rightarrow> string \<times> string option" where
  "split_colon raw =
     (let a = takeWhile (\<lambda>c. c \<noteq> CHR '':'') raw;
          b = dropWhile (\<lambda>c. c \<noteq> CHR '':'') raw
      in (a, if b = [] then None else Some (tl b)))"

text \<open>
  \<^verbatim>\<open>_parse_hhmm\<close>: a time of day as hour and minute; \<open>None\<close> for an empty text, a
  part that is not an integer, or a value out of range.
\<close>

definition parse_hhmm :: "string \<Rightarrow> (int \<times> int) option" where
  "parse_hhmm v =
     (let raw = strip v in
      if raw = [] then None
      else
        (case split_colon raw of (p0, p1) \<Rightarrow>
           (case py_int p0 of
              None \<Rightarrow> None
            | Some h \<Rightarrow>
                (case (case p1 of None \<Rightarrow> Some 0 | Some t \<Rightarrow> py_int t) of
                   None \<Rightarrow> None
                 | Some m \<Rightarrow>
                     if h < 0 \<or> h > 23 \<or> m < 0 \<or> m > 59 then None else Some (h, m)))))"

text \<open>
  A user's mail configuration file, with the keys the scheduler reads and writes and
  the types the settings form stores them with; a key may be missing.
\<close>

record email_cfg =
  schedule_enabled :: "bool option"
  schedule_weekday :: "int option"
  schedule_time :: "string option"
  last_auto_sent_key :: "string option"
  last_auto_sent_at :: "string option"

text \<open>The clock reading \<^verbatim>\<open>now\<close> of one tick.\<close>

record clock =
  now_date :: date
  now_hour :: int
  now_minute :: int
  now_second :: int
  now_microsecond :: int
  now_isoformat :: string

text \<open>\<^verbatim>\<open>now.time() < send_at\<close>, where \<^verbatim>\<open>send_at\<close> has no seconds.\<close>

definition time_before :: "clock \<Rightarrow> int \<times> int \<Rightarrow> bool" where
  "time_before now send_at =
     (case send_at of (h, m) \<Rightarrow>
        now_hour now < h \<or> (now_hour now = h \<and> now_minute now < m))"

text \<open>
  What a tick finds outside the configuration files: the table of plans and, for each
  user, whether \<^verbatim>\<open>send_plan_email\<close> returns or raises.
\<close>

record tick_env =
  env_now :: clock
  env_plans :: "WeeklyPlan list"
  env_send_ok :: "int \<Rightarrow> bool"

datatype log_entry = Email_auto_send int int string | Email_auto_send_failed int string

text \<open>
  The state the ticks share: the period table, the configuration files by user id, the
  operation log, and the list of calls of \<^verbatim>\<open>send_plan_email\<close> made so far, each with
  the user and the period key.
\<close>

record sched_state =
  st_periods :: "WeekPeriod list"
  st_cfgs :: "(int \<times> email_cfg) list"
  st_log :: "log_entry list"
  st_sent :: "(int \<times> string) list"

text \<open>\<^verbatim>\<open>save_user_email_config\<close>: the file of that user is written.\<close>

definition save_user_email_config :: "int \<Rightarrow> email_cfg \<Rightarrow> (int \<times> email_cfg) list \<Rightarrow> (int \<times> email_cfg) list" where
  "save_user_email_config user_id cfg files = AList.update user_id cfg files"

text \<open>The gates of the loop body that end in \<^verbatim>\<open>continue\<close>, the key guard last.\<close>

definition is_true :: "bool option \<Rightarrow> bool" where
  "is_true b = (case b of None \<Rightarrow> False | Some v \<Rightarrow> v)"

definition due :: "clock \<Rightarrow> string \<Rightarrow> email_cfg \<Rightarrow> bool" where
  "due now key cfg =
     (if \<not> is_true (schedule_enabled cfg) then False
      else
        let weekday = (case schedule_weekday cfg of None \<Rightarrow> 1 | Some w \<Rightarrow> if w = 0 then 1 else w);
            send_at = parse_hhmm (case schedule_time cfg of None \<Rightarrow> ''09:00''
                                   | Some t \<Rightarrow> if t = [] then ''09:00'' else t)
        in (case send_at of
              None \<Rightarrow> False
            | Some t_send \<Rightarrow>
                if isoweekday (now_date now) \<noteq> weekday then False
                else if time_before now t_send then False
                else if last_auto_sent_key cfg = Some key then False
                else True))"

text \<open>
  The body of the loop for one user who passed the gates: the submitted plan of the
  period is looked up; if there is one, the mail is sent and logged; the key is stored
  in the configuration whether the send returned or raised.
\<close>

definition send_for_user ::
  "tick_env \<Rightarrow> WeekPeriod \<Rightarrow> string \<Rightarrow> int \<Rightarrow> email_cfg \<Rightarrow> sched_state \<Rightarrow> sched_state" where
  "send_for_user env period key user_id cfg st =
     (let plan = find (\<lambda>p. period_id p = wp_id period \<and> owner_user_id p = user_id
                            \<and> status p = ''submitted'') (env_plans env);
          cfg' = cfg\<lparr>last_auto_sent_key := Some key,
                     last_auto_sent_at := Some (now_isoformat (env_now env))\<rparr>
      in (case plan of
            None \<Rightarrow> st\<lparr>st_cfgs := save_user_email_config user_id cfg' (st_cfgs st)\<rparr>
          | Some p \<Rightarrow>
              if env_send_ok env user_id then
                st\<lparr>st_sent := st_sent st @ [(user_id, key)],
                    st_log := st_log st @ [Email_auto_send (wplan_id p) user_id key],
                    st_cfgs := save_user_email_config user_id cfg' (st_cfgs st)\<rparr>
              else
                st\<lparr>st_sent := st_sent st @ [(user_id, key)],
                    st_log := st_log st @ [Email_auto_send_failed user_id key],
                    st_cfgs := save_user_email_config user_id cfg' (st_cfgs st)\<rparr>))"

text \<open>The loop over the configurations read at the start of the tick.\<close>

fun users_loop ::
  "tick_env \<Rightarrow> WeekPeriod \<Rightarrow> string \<Rightarrow> (int \<times> email_cfg) list \<Rightarrow> sched_state \<Rightarrow> sched_state" where
  "users_loop env period key [] st = st"
| "users_loop env period key ((user_id, cfg) # rest) st =
     (if due (env_now env) key cfg
      then users_loop env period key rest (send_for_user env period key user_id cfg st)
      else users_loop env period key rest st)"

text \<open>
  \<^verbatim>\<open>try_auto_send_week_plans\<close>: one tick.  An exception of \<^verbatim>\<open>ensure_period\<close> ends
  the tick before any configuration is read.
\<close>

definition try_auto_send_week_plans :: "tick_env \<Rightarrow> sched_state \<Rightarrow> sched_state" where
  "try_auto_send_week_plans env st =
     (case ensure_period (st_periods st) (now_date (env_now env)) of
        Inl err \<Rightarrow> st
      | Inr (rows, period) \<Rightarrow>
          users_loop env period (period_key_str period) (st_cfgs st) (st\<lparr>st_periods := rows\<rparr>))"

text \<open>
  \<^verbatim>\<open>email_scheduler_loop\<close>: the loop calls the tick again and again and ignores an
  exception of a tick; here the ticks of a finite stretch of the loop, in the order they
  run.
\<close>

fun email_scheduler_loop :: "tick_env list \<Rightarrow> sched_state \<Rightarrow> sched_state" where
  "email_scheduler_loop [] st = st"
| "email_scheduler_loop (env # envs) st = email_scheduler_loop envs (try_auto_send_week_plans env st)"

section \<open>Plan templates (crud.py)\<close>

record PlanTemplate =
  tpl_id :: int
  tpl_name :: string

text \<open>
  \<^verbatim>\<open>create_plan_template_from_plan\<close>: the name is checked first, then the plan is looked
  up.  \<open>create_rows\<close> stands for the statements after the guards, which copy the plan's
  items into the rows of the new template.
\<close>

definition create_plan_template_from_plan ::
  "(WeeklyPlan \<Rightarrow> string \<Rightarrow> 'a) \<Rightarrow> WeeklyPlan list \<Rightarrow> PlanTemplate list \<Rightarrow> int \<Rightarrow> string
     \<Rightarrow> crud_error + 'a" where
  "create_plan_template_from_plan create_rows plans templates pid name0 =
     (let name1 = strip name0 in
      if name1 = [] then Inl (ValueError ''template_name_required'')
      else if find (\<lambda>t. tpl_name t = name1) templates \<noteq> None
        then Inl (ValueError ''template_name_exists'')
      else
        case db_get wplan_id plans pid of
          Inl e \<Rightarrow> Inl e
        | Inr None \<Rightarrow> Inl (ValueError ''plan_not_found'')
        | Inr (Some plan) \<Rightarrow> Inr (create_rows plan name1))"

text \<open>
  \<^verbatim>\<open>apply_plan_template_to_plan\<close>: both rows are looked up, then the mode is checked.
  \<open>copy_rows\<close> stands for the statements after the guards, which copy the template's
  items into the plan.
\<close>

definition apply_plan_template_to_plan ::
  "(WeeklyPlan \<Rightarrow> PlanTemplate \<Rightarrow> string \<Rightarrow> 'a) \<Rightarrow> WeeklyPlan list \<Rightarrow> PlanTemplate list
     \<Rightarrow> int \<Rightarrow> int \<Rightarrow> string \<Rightarrow> crud_error + 'a" where
  "apply_plan_template_to_plan copy_rows plans templates pid template_id mode =
     (case db_get wplan_id plans pid of
        Inl e \<Rightarrow> Inl e
      | Inr plan \<Rightarrow>
          (case db_get tpl_id templates template_id of
             Inl e \<Rightarrow> Inl e
           | Inr tpl \<Rightarrow>
               (case (plan, tpl) of
                  (Some p, Some t) \<Rightarrow>
                    if mode \<notin> {''append'', ''replace''}
                    then Inl (ValueError ''invalid_mode'')
                    else Inr (copy_rows p t mode)
                | _ \<Rightarrow> Inl (ValueError ''not_found''))))"

section \<open>The rules in the words of the specification\<close>

text \<open>
  The day-by-day rule in the words of the specification: a day in the workday override
  set is included; otherwise a day whose ISO weekday is at most 5 and that is not in the
  holiday set is included; every other day is excluded.
\<close>

definition effective_day :: "date set \<Rightarrow> date set \<Rightarrow> date \<Rightarrow> bool" where
  "effective_day holidays workdays d =
     (if d \<in> workdays then True
      else if isoweekday d \<le> 5 \<and> d \<notin> holidays then True
      else False)"

definition effectiveWorkdays :: "date \<Rightarrow> date \<Rightarrow> date set \<Rightarrow> date set \<Rightarrow> date list" where
  "effectiveWorkdays start_date end_date holidays workdays =
     filter (effective_day holidays workdays) [start_date..end_date]"

text \<open>
  The per-item actual hours in the words of the specification: with one detail or more,
  the sum of the details' hours, an absent value counting as zero; with no detail, the
  estimated hours, or zero when absent.
\<close>

definition itemActualHours :: "PlanItem \<Rightarrow> rat" where
  "itemActualHours it =
     (if length (details it) \<ge> 1
      then (\<Sum>d\<leftarrow>details it. case hours d of None \<Rightarrow> 0 | Some h \<Rightarrow> h)
      else (case estimated_hours it of None \<Rightarrow> 0 | Some h \<Rightarrow> h))"

definition itemEstimatedHours :: "PlanItem \<Rightarrow> rat" where
  "itemEstimatedHours it = (case estimated_hours it of None \<Rightarrow> 0 | Some h \<Rightarrow> h)"

text \<open>
  Rounding half up to one decimal place, the policy the specification names: the
  tenths are counted by \<open>\<lfloor>10 x + 1/2\<rfloor>\<close>.
\<close>

definition round_half_up1 :: "rat \<Rightarrow> rat" where
  "round_half_up1 x = of_int \<lfloor>x * 10 + 1 / 2\<rfloor> / 10"

section \<open>Auxiliary definitions for the aggregation engine\<close>

text \<open>The running entry of a plan after the items \<open>its\<close>, before the final rounding.\<close>

definition accumulate :: "plan_stats \<Rightarrow> PlanItem list \<Rightarrow> plan_stats" where
  "accumulate base its =
     \<lparr>estimated = estimated base + (\<Sum>it\<leftarrow>its. itemEstimatedHours it),
      actual = actual base + (\<Sum>it\<leftarrow>its. itemActualHours it),
      items = items base + length its\<rparr>"

definition entry_or_zero :: "plan_stats option \<Rightarrow> plan_stats" where
  "entry_or_zero e = (case e of None \<Rightarrow> zero_stats | Some v \<Rightarrow> v)"

text \<open>
  Hours as the database holds them: a \<^verbatim>\<open>Numeric(6, 1)\<close> column gives a decimal with one
  digit after the point and at most five before it, or \<^verbatim>\<open>None\<close>.
\<close>

definition stored_hours :: "rat option \<Rightarrow> bool" where
  "stored_hours x =
     (case x of None \<Rightarrow> True | Some h \<Rightarrow> of_int \<lfloor>h * 10\<rfloor> = h * 10 \<and> \<bar>h\<bar> \<le> 100000)"

definition stored_item :: "PlanItem \<Rightarrow> bool" where
  "stored_item it \<longleftrightarrow>
     stored_hours (estimated_hours it) \<and> list_all (\<lambda>d. stored_hours (hours d)) (details it)"

text \<open>The number of values that an item adds to the actual hours.\<close>

definition hour_entries :: "PlanItem \<Rightarrow> nat" where
  "hour_entries it = (if details it \<noteq> [] then length (details it) else 1)"

text \<open>The items of a plan of ordinary size: stored hours, at most 10000 of them.\<close>

definition stored_items :: "PlanItem list \<Rightarrow> bool" where
  "stored_items its \<longleftrightarrow> list_all stored_item its \<and> sum_list (map hour_entries its) \<le> 10000"

text \<open>What one pass of the loop on floats does to the entry of the item's plan.\<close>

definition acc_step_f64 :: "PlanItem \<Rightarrow> plan_stats \<Rightarrow> plan_stats" where
  "acc_step_f64 it s =
     (let est = rnd (or_zero (estimated_hours it));
          act = (if details it \<noteq> [] then add_detail_hours_f64 (details it) 0 else est)
      in \<lparr>estimated = rnd (estimated s + est), actual = rnd (actual s + act),
          items = items s + 1\<rparr>)"

section \<open>Example data\<close>

text \<open>
  An item without details estimated at 3.05 hours, an item of another plan with the
  details 0.25 hours and no hours, and a draft plan with the id 7.
\<close>

definition item_305 :: PlanItem where
  "item_305 = \<lparr>plan_id = 1, estimated_hours = Some (61 / 20), details = []\<rparr>"


definition plan_7 :: WeeklyPlan where
  "plan_7 = \<lparr>wplan_id = 7, period_id = 1, owner_user_id = 1, status = ''draft''\<rparr>"



definition tpl_1 :: PlanTemplate where
  "tpl_1 = \<lparr>tpl_id = 1, tpl_name = ''weekly''\<rparr>"

section \<open>Consistency of the period table\<close>


text \<open>
  The week 5 of 2024, Monday 2024-01-29 (day 738914) to Sunday 2024-02-04, with the
  month of its Thursday and with the month of its Monday.
\<close>

definition week_2024_05 :: WeekPeriod where
  "week_2024_05 = \<lparr>wp_id = 1, wp_year = 2024, wp_month = 2, wp_week_no = 5,
                     wp_start_date = 738914, wp_end_date = 738920\<rparr>"

definition stale_2024_05 :: WeekPeriod where
  "stale_2024_05 = week_2024_05\<lparr>wp_month := 1\<rparr>"

section \<open>Reading the scheduler's state\<close>

text \<open>
  The period key of the tick that runs on a date, the key stored in a user's
  configuration file, and the value of a string of decimal digits.
\<close>

definition date_key :: "date \<Rightarrow> string" where
  "date_key d = (case iso_week_period d of (y, w, s, e) \<Rightarrow> str_int y @ ''-W'' @ str_int w)"

definition last_key :: "sched_state \<Rightarrow> int \<Rightarrow> string option" where
  "last_key st u = (case map_of (st_cfgs st) u of None \<Rightarrow> None | Some cfg \<Rightarrow> last_auto_sent_key cfg)"

definition digits_nat :: "string \<Rightarrow> nat" where
  "digits_nat s = foldl (\<lambda>a c. 10 * a + (of_char c - 48)) 0 s"

definition tick_date :: "tick_env \<Rightarrow> date" where
  "tick_date env = now_date (env_now env)"

text \<open>
  Whether a tick finds a submitted plan of the period for a user, the configuration as
  the loop body stores it, and the calls of \<^verbatim>\<open>send_plan_email\<close> that one tick makes.
\<close>

definition has_plan :: "tick_env \<Rightarrow> WeekPeriod \<Rightarrow> int \<Rightarrow> bool" where
  "has_plan env period u \<longleftrightarrow>
     find (\<lambda>p. period_id p = wp_id period \<and> owner_user_id p = u \<and> status p = ''submitted'')
       (env_plans env) \<noteq> None"

definition stamp :: "tick_env \<Rightarrow> string \<Rightarrow> email_cfg \<Rightarrow> email_cfg" where
  "stamp env key cfg =
     cfg\<lparr>last_auto_sent_key := Some key,
         last_auto_sent_at := Some (now_isoformat (env_now env))\<rparr>"

definition tick_sends ::
  "tick_env \<Rightarrow> WeekPeriod \<Rightarrow> string \<Rightarrow> (int \<times> email_cfg) list \<Rightarrow> (int \<times> string) list" where
  "tick_sends env period key snap =
     map (\<lambda>uc. (fst uc, key))
       (filter (\<lambda>uc. due (env_now env) key (snd uc) \<and> has_plan env period (fst uc)) snap)"

text \<open>
  What is known of the calls made so far when the ticks \<open>envs\<close> are still to run: no
  call is repeated, each was made on a date not after those ticks, and a user whose key
  comes up again has it stored.
\<close>

definition sent_ok :: "tick_env list \<Rightarrow> sched_state \<Rightarrow> int \<times> string \<Rightarrow> bool" where
  "sent_ok envs st uk \<longleftrightarrow>
     (\<exists>d0. date_key d0 = snd uk \<and> list_all (\<lambda>env. d0 \<le> tick_date env) envs)
     \<and> (list_ex (\<lambda>env. date_key (tick_date env) = snd uk) envs
           \<longrightarrow> last_key st (fst uk) = Some (snd uk))"

definition sent_inv :: "tick_env list \<Rightarrow> sched_state \<Rightarrow> bool" where
  "sent_inv envs st \<longleftrightarrow>
     distinct (map fst (st_cfgs st)) \<and> distinct (st_sent st)
     \<and> list_all (sent_ok envs st) (st_sent st)"

text \<open>
  A user who sends on Thursdays at 09:00, the submitted plan of that user for the period
  with id 1, and two ticks on Thursday 2024-02-01, at 09:30 with a send that raises and at
  10:00 with a send that returns.
\<close>

definition cfg_thursday :: email_cfg where
  "cfg_thursday = \<lparr>schedule_enabled = Some True, schedule_weekday = Some 4,
                    schedule_time = Some ''09:00'', last_auto_sent_key = None,
                    last_auto_sent_at = None\<rparr>"

definition plan_submitted :: WeeklyPlan where
  "plan_submitted = \<lparr>wplan_id = 3, period_id = 1, owner_user_id = 1, status = ''submitted''\<rparr>"

definition tick_0930 :: tick_env where
  "tick_0930 = \<lparr>env_now = \<lparr>now_date = 738917, now_hour = 9, now_minute = 30, now_second = 0,
                             now_microsecond = 0, now_isoformat = ''2024-02-01T09:30:00''\<rparr>,
                 env_plans = [plan_submitted], env_send_ok = (\<lambda>u. False)\<rparr>"

definition tick_1000 :: tick_env where
  "tick_1000 = \<lparr>env_now = \<lparr>now_date = 738917, now_hour = 10, now_minute = 0, now_second = 0,
                             now_microsecond = 0, now_isoformat = ''2024-02-01T10:00:00''\<rparr>,
                 env_plans = [plan_submitted], env_send_ok = (\<lambda>u. True)\<rparr>"

definition state_0 :: sched_state where
  "state_0 = \<lparr>st_periods = [], st_cfgs = [(1, cfg_thursday)], st_log = [], st_sent = []\<rparr>"

section \<open>Properties of the workday calculator\<close>

lemma effective_day_iff:
  "effective_day H W d \<longleftrightarrow> d \<in> W \<or> (isoweekday d \<le> 5 \<and> d \<notin> H)"
  by (simp add: effective_day_def)

lemma workdays_loop_filter:
  "workdays_loop H W e c ds =
     ds @ filter (\<lambda>d. d \<in> W \<or> (isoweekday d \<le> 5 \<and> d \<notin> H)) [c..e]"
proof (induction H W e c ds rule: workdays_loop.induct)
  case (1 H W e c ds)
  show ?case
  proof (cases "c \<le> e")
    case le: True
    then have up: "[c..e] = c # [c + 1..e]"
      by (simp add: upto_rec1)
    show ?thesis
    proof (cases "c \<in> W")
      case True
      with le "1.IH"(1) show ?thesis
        by (subst workdays_loop.simps) (simp add: up add_days_def)
    next
      case notW: False
      show ?thesis
      proof (cases "isoweekday c \<le> 5 \<and> c \<notin> H")
        case True
        with le notW "1.IH"(2) show ?thesis
          by (subst workdays_loop.simps) (simp add: up add_days_def)
      next
        case False
        with le notW "1.IH"(3) show ?thesis
          by (subst workdays_loop.simps) (auto simp add: up add_days_def)
      qed
    qed
  next
    case False
    then show ?thesis
      by (subst workdays_loop.simps) simp
  qed
qed

lemma workdays_in_range_eq:
  "workdays_in_range s e H W = effectiveWorkdays s e (or_empty H) (or_empty W)"
  by (simp add: workdays_in_range_def effectiveWorkdays_def workdays_loop_filter
      effective_day_iff [abs_def])

lemma week_2024_01: "[738886..738892] = [738886, 738887, 738888, 738889, 738890, 738891, 738892]"
  by (simp add: upto_rec_numeral)

text \<open>
  Claim C2.  For every start date, end date, holiday set and workday set,
  \<^verbatim>\<open>workdays_in_range\<close> returns exactly the days of the inclusive range, in ascending
  order, that are in the workday override set, or else have an ISO weekday of at most 5
  and are not in the holiday set: the list is the specification's sequence, its elements
  are exactly those days, and it is ascending without repetition.
\<close>

theorem workdays_in_range_effective:
  "workdays_in_range s e H W = effectiveWorkdays s e (or_empty H) (or_empty W)
   \<and> set (workdays_in_range s e H W) =
       {d. s \<le> d \<and> d \<le> e \<and> (d \<in> or_empty W \<or> (isoweekday d \<le> 5 \<and> d \<notin> or_empty H))}
   \<and> sorted (workdays_in_range s e H W) \<and> distinct (workdays_in_range s e H W)"
proof -
  have eq: "workdays_in_range s e H W =
      filter (effective_day (or_empty H) (or_empty W)) [s..e]"
    by (simp add: workdays_in_range_eq effectiveWorkdays_def)
  have "set (workdays_in_range s e H W) =
       {d. s \<le> d \<and> d \<le> e \<and> (d \<in> or_empty W \<or> (isoweekday d \<le> 5 \<and> d \<notin> or_empty H))}"
    unfolding eq by (auto simp: effective_day_iff)
  moreover have "sorted (workdays_in_range s e H W)"
    unfolding eq by (simp add: sorted_wrt_filter)
  moreover have "distinct (workdays_in_range s e H W)"
    unfolding eq by simp
  ultimately show ?thesis
    by (simp add: workdays_in_range_eq)
qed

text \<open>
  The week from Monday 2024-01-01 (day 738886) to Sunday 2024-01-07 with the Monday a
  holiday and the Saturday a workday: Tuesday to Saturday, five days.
\<close>

theorem workdays_in_range_effective_witness:
  "workdays_in_range 738886 738892 (Some {738886}) (Some {738891})
     = [738887, 738888, 738889, 738890, 738891]"
  using workdays_in_range_effective [of 738886 738892 "Some {738886}" "Some {738891}"]
  by (simp add: effectiveWorkdays_def effective_day_def or_empty_def isoweekday_def week_2024_01)

text \<open>
  Claim C9.  For every start date, end date and override sets, \<^verbatim>\<open>workday_range\<close>
  returns the first and the last element of the sequence of effective workdays and its
  length, and \<^verbatim>\<open>(None, None, 0)\<close> when the sequence is empty; the count is the
  number of days of the range that the day rule includes.
\<close>

theorem workday_range_summary:
  "workday_range s e H W =
     (let days = effectiveWorkdays s e (or_empty H) (or_empty W)
      in if days = [] then (None, None, 0)
         else (Some (hd days), Some (last days), length days))
   \<and> snd (snd (workday_range s e H W))
       = card {d. s \<le> d \<and> d \<le> e \<and> effective_day (or_empty H) (or_empty W) d}"
proof -
  let ?days = "effectiveWorkdays s e (or_empty H) (or_empty W)"
  have eq: "workday_range s e H W =
     (if ?days = [] then (None, None, 0)
      else (Some (hd ?days), Some (last ?days), length ?days))"
    by (simp add: workday_range_def workdays_in_range_eq Let_def split: list.splits)
  have "distinct ?days"
    by (simp add: effectiveWorkdays_def)
  then have "length ?days = card (set ?days)"
    by (simp add: distinct_card)
  moreover have "set ?days = {d. s \<le> d \<and> d \<le> e \<and> effective_day (or_empty H) (or_empty W) d}"
    by (auto simp: effectiveWorkdays_def)
  ultimately have "snd (snd (workday_range s e H W))
       = card {d. s \<le> d \<and> d \<le> e \<and> effective_day (or_empty H) (or_empty W) d}"
    unfolding eq by auto
  with eq show ?thesis
    by (simp add: Let_def)
qed

text \<open>The same week, and a weekend without overrides.\<close>

theorem workday_range_summary_witness:
  "workday_range 738886 738892 (Some {738886}) (Some {738891}) = (Some 738887, Some 738891, 5)
   \<and> workday_range 738891 738892 None None = (None, None, 0)"
  using workday_range_summary [of 738886 738892 "Some {738886}" "Some {738891}"]
    workday_range_summary [of 738891 738892 None None]
  by (simp add: effectiveWorkdays_def effective_day_def or_empty_def isoweekday_def
      week_2024_01 upto_rec_numeral)

section \<open>Properties of the aggregation engine\<close>

lemma or_zero_eq: "or_zero x = (case x of None \<Rightarrow> 0 | Some h \<Rightarrow> h)"
  by (simp add: or_zero_def split: option.splits)

lemma add_detail_hours_sum:
  "add_detail_hours ds t = t + (\<Sum>d\<leftarrow>ds. case hours d of None \<Rightarrow> 0 | Some h \<Rightarrow> h)"
  by (induction ds arbitrary: t) (auto split: option.splits)

lemma item_actual_code:
  "(if details it \<noteq> [] then add_detail_hours (details it) 0 else or_zero (estimated_hours it))
     = itemActualHours it"
  by (cases "details it") (simp_all add: itemActualHours_def add_detail_hours_sum or_zero_eq)

lemma stats_step_same:
  "stats_step it m (plan_id it) = Some (accumulate (entry_or_zero (m (plan_id it))) [it])"
proof -
  have est: "or_zero (estimated_hours it) = itemEstimatedHours it"
    by (simp add: or_zero_eq itemEstimatedHours_def)
  have act: "(if details it \<noteq> [] then add_detail_hours (details it) 0
              else itemEstimatedHours it) = itemActualHours it"
    by (cases "details it")
      (simp_all add: itemActualHours_def itemEstimatedHours_def add_detail_hours_sum)
  show ?thesis
    unfolding stats_step_def Let_def est act
    by (simp add: accumulate_def entry_or_zero_def split: option.splits)
qed

lemma stats_step_other:
  "pid \<noteq> plan_id it \<Longrightarrow> stats_step it m pid = m pid"
  by (simp add: stats_step_def Let_def split: option.splits)

lemma accumulate_Cons:
  "accumulate (accumulate base [it]) its = accumulate base (it # its)"
  by (simp add: accumulate_def)

lemma fold_stats_step:
  "fold stats_step its m pid =
     (if items_of its pid = [] then m pid
      else Some (accumulate (entry_or_zero (m pid)) (items_of its pid)))"
proof (induction its arbitrary: m)
  case Nil
  show ?case by (simp add: items_of_def)
next
  case (Cons it its)
  show ?case
  proof (cases "plan_id it = pid")
    case True
    then show ?thesis
      using Cons [of "stats_step it m"] stats_step_same [of it m]
      by (auto simp: items_of_def entry_or_zero_def accumulate_Cons accumulate_def)
  next
    case False
    then show ?thesis
      using Cons [of "stats_step it m"] stats_step_other [of pid it m]
      by (auto simp: items_of_def)
  qed
qed

lemma seed_stats:
  "fold (\<lambda>pid m. m(pid \<mapsto> zero_stats)) ids m0 pid =
     (if pid \<in> set ids then Some zero_stats else m0 pid)"
  by (induction ids arbitrary: m0) auto

lemma items_of_selected:
  "pid \<in> set ids \<Longrightarrow> items_of (filter (\<lambda>it. plan_id it \<in> set ids) its) pid = items_of its pid"
  by (induction its) (auto simp: items_of_def)

lemma items_of_unselected:
  "pid \<notin> set ids \<Longrightarrow> items_of (filter (\<lambda>it. plan_id it \<in> set ids) its) pid = []"
  by (induction its) (auto simp: items_of_def)


lemma stats_before_rounding:
  "fold stats_step (filter (\<lambda>it. plan_id it \<in> set ids) its)
      (fold (\<lambda>pid m. m(pid \<mapsto> zero_stats)) ids Map.empty) pid =
     (if pid \<in> set ids then Some (accumulate zero_stats (items_of its pid)) else None)"
proof (cases "pid \<in> set ids")
  case True
  then show ?thesis
    by (simp add: fold_stats_step seed_stats items_of_selected entry_or_zero_def)
      (simp add: accumulate_def)
next
  case False
  then show ?thesis
    by (simp add: fold_stats_step seed_stats items_of_unselected)
qed

lemma stats_entries:
  assumes "plan_ids \<noteq> []"
  shows "get_plan_item_stats plan_items plan_ids pid =
     (if pid \<in> set plan_ids then
        Some \<lparr>estimated = py_round1 (\<Sum>it\<leftarrow>items_of plan_items pid. itemEstimatedHours it),
              actual = py_round1 (\<Sum>it\<leftarrow>items_of plan_items pid. itemActualHours it),
              items = length (items_of plan_items pid)\<rparr>
      else None)"
proof -
  have "get_plan_item_stats plan_items plan_ids pid =
      map_option round_stats
        (if pid \<in> set plan_ids then Some (accumulate zero_stats (items_of plan_items pid))
         else None)"
    using assms by (simp add: get_plan_item_stats_def Let_def stats_before_rounding)
  then show ?thesis
    by (simp add: round_stats_def accumulate_def zero_stats_def)
qed

lemma round_half_even_near:
  "\<bar>of_int (round_half_even y) - y\<bar> \<le> 1 / 2"
proof -
  have "of_int \<lfloor>y\<rfloor> \<le> y" "y < of_int \<lfloor>y\<rfloor> + 1"
    by linarith+
  then show ?thesis
    by (auto simp: round_half_even_def Let_def)
qed

lemma round_half_even_tie:
  "\<bar>of_int (round_half_even y) - y\<bar> = 1 / 2 \<Longrightarrow> even (round_half_even y)"
proof -
  have "of_int \<lfloor>y\<rfloor> \<le> y" "y < of_int \<lfloor>y\<rfloor> + 1"
    by linarith+
  then show "\<bar>of_int (round_half_even y) - y\<bar> = 1 / 2 \<Longrightarrow> even (round_half_even y)"
    by (auto simp: round_half_even_def Let_def split: if_splits)
qed

lemma round_half_even_of_int: "round_half_even (of_int k) = k"
  by (simp add: round_half_even_def)

lemma py_round1_near: "\<bar>py_round1 x - x\<bar> \<le> 1 / 20"
  using round_half_even_near [of "x * 10"] by (simp add: py_round1_def field_simps)

lemma py_round1_tie:
  "\<bar>py_round1 x - x\<bar> = 1 / 20 \<Longrightarrow> even (round_half_even (x * 10))"
  using round_half_even_tie [of "x * 10"] by (simp add: py_round1_def field_simps)

lemma py_round1_tenth: "py_round1 (of_int k / 10) = of_int k / 10"
  by (simp add: py_round1_def round_half_even_of_int)




section \<open>Properties of double-precision arithmetic\<close>

text \<open>
  The spacing \<open>ulp x\<close> of a positive \<open>x\<close> is positive and \<open>x\<close> has a 53-bit
  significand in units of it.
\<close>

lemma ulp_hi_spec:
  "2 ^ 52 \<le> x \<Longrightarrow> 0 < ulp_hi x \<and> 2 ^ 52 * ulp_hi x \<le> x \<and> x < 2 ^ 53 * ulp_hi x"
proof (induction x rule: ulp_hi.induct)
  case (1 x)
  show ?case
  proof (cases "x < 2 ^ 53")
    case True
    then show ?thesis using 1(2) by (subst (1 2 3) ulp_hi.simps) simp
  next
    case False
    then have "2 ^ 52 \<le> x / 2" by simp
    from 1(1) [OF False this] show ?thesis
      using False by (subst (1 2 3) ulp_hi.simps) simp
  qed
qed

lemma ulp_lo_spec:
  "0 < x \<Longrightarrow> x < 2 ^ 53 \<Longrightarrow> 0 < ulp_lo x \<and> 2 ^ 52 * ulp_lo x \<le> x \<and> x < 2 ^ 53 * ulp_lo x"
proof (induction x rule: ulp_lo.induct)
  case (1 x)
  show ?case
  proof (cases "2 ^ 52 \<le> x")
    case True
    then show ?thesis using 1(2,3) by (subst (1 2 3) ulp_lo.simps) simp
  next
    case False
    then have c: "\<not> (x \<le> 0 \<or> 2 ^ 52 \<le> x)" using 1(2) by simp
    have "0 < 2 * x" "2 * x < 2 ^ 53" using False 1(2) by simp_all
    from 1(1) [OF c this] show ?thesis
      using c by (subst (1 2 3) ulp_lo.simps) simp
  qed
qed

lemma ulp_spec:
  assumes "0 < x"
  shows "0 < ulp x \<and> 2 ^ 52 * ulp x \<le> x \<and> x < 2 ^ 53 * ulp x"
proof (cases "2 ^ 52 \<le> x")
  case True
  then show ?thesis using ulp_hi_spec [of x] by (simp add: ulp_def)
next
  case False
  then have "x < 2 ^ 53" by simp
  with assms False show ?thesis using ulp_lo_spec [of x] by (simp add: ulp_def)
qed

text \<open>
  The double nearest to \<open>x\<close> differs from \<open>x\<close> by at most half a unit in the last
  place: by at most \<open>\<bar>x\<bar> / 2^53\<close>.
\<close>

lemma rnd_rel:
  "\<bar>rnd x - x\<bar> \<le> \<bar>x\<bar> / 2 ^ 53"
proof (cases "x = 0")
  case True
  then show ?thesis by (simp add: rnd_def)
next
  case False
  define u where "u = ulp \<bar>x\<bar>"
  have u: "0 < u" "2 ^ 52 * u \<le> \<bar>x\<bar>"
    using ulp_spec [of "\<bar>x\<bar>"] False by (simp_all add: u_def)
  have "rnd x - x = (of_int (round_half_even (x / u)) - x / u) * u"
    using u(1) False by (simp add: rnd_def u_def [symmetric] Let_def algebra_simps)
  then have "\<bar>rnd x - x\<bar> = \<bar>of_int (round_half_even (x / u)) - x / u\<bar> * u"
    using u(1) by (simp add: abs_mult)
  also have "\<dots> \<le> 1 / 2 * u"
    using round_half_even_near [of "x / u"] u(1) by (intro mult_right_mono) simp_all
  also have "\<dots> \<le> \<bar>x\<bar> / 2 ^ 53"
    using u(2) by simp
  finally show ?thesis .
qed

lemma rnd_abs:
  assumes "\<bar>x\<bar> \<le> 2147483648"
  shows "\<bar>rnd x - x\<bar> \<le> 1 / 4194304"
proof -
  have "\<bar>rnd x - x\<bar> \<le> \<bar>x\<bar> / 2 ^ 53" by (rule rnd_rel)
  also have "\<dots> \<le> 2147483648 / 2 ^ 53" using assms by (simp add: divide_right_mono)
  also have "\<dots> = (1 :: rat) / 4194304" by simp
  finally show ?thesis .
qed

text \<open>
  How a double is computed: scale \<open>x\<close> by the power of two that brings it between
  \<open>2^52\<close> and \<open>2^53\<close>, and take the nearest integer, the even one at a tie.
\<close>

lemma ulp_lo_shift:
  "0 < x \<Longrightarrow> 2 ^ 52 \<le> x * 2 ^ k \<Longrightarrow> x * 2 ^ k < 2 ^ 53 \<Longrightarrow> ulp_lo x = 1 / 2 ^ k"
proof (induction k arbitrary: x)
  case 0
  then show ?case by (subst ulp_lo.simps) simp
next
  case (Suc k)
  show ?case
  proof (cases "2 ^ 52 \<le> x")
    case True
    have "x * 1 \<le> x * 2 ^ k"
      by (rule mult_left_mono) (use Suc.prems(1) in simp_all)
    moreover have "x * 2 ^ Suc k = 2 * (x * 2 ^ k)" by simp
    moreover have "(2::rat) ^ 53 = 2 * 2 ^ 52" by simp
    ultimately have False using True Suc.prems(3) by linarith
    then show ?thesis ..
  next
    case False
    have "ulp_lo (2 * x) = 1 / 2 ^ k"
      using Suc.prems by (intro Suc.IH) (simp_all add: mult_ac)
    then show ?thesis
      using False Suc.prems(1) by (subst ulp_lo.simps) simp
  qed
qed

lemma round_half_even_eqI:
  assumes "\<bar>y - of_int n\<bar> < 1 / 2"
  shows "round_half_even y = n"
proof -
  have fl: "of_int \<lfloor>y\<rfloor> \<le> y" "y < of_int \<lfloor>y\<rfloor> + 1"
    by linarith+
  define r where "r = round_half_even y"
  have near: "\<bar>of_int r - y\<bar> \<le> 1 / 2"
    unfolding r_def by (rule round_half_even_near)
  have "\<bar>rat_of_int r - of_int n\<bar> < 1"
    using near assms by linarith
  then have "\<bar>rat_of_int (r - n)\<bar> < of_int 1"
    by simp
  then have "\<bar>r - n\<bar> < 1"
    unfolding of_int_abs [symmetric] of_int_less_iff .
  then show ?thesis unfolding r_def by simp
qed

lemma round_half_even_tie_eqI:
  assumes "\<bar>y - of_int n\<bar> = 1 / 2" and "even n"
  shows "round_half_even y = n"
proof -
  define r where "r = round_half_even y"
  have near: "\<bar>of_int r - y\<bar> \<le> 1 / 2"
    unfolding r_def by (rule round_half_even_near)
  have "\<bar>rat_of_int r - of_int n\<bar> \<le> 1"
    using near assms(1) by linarith
  then have "\<bar>rat_of_int (r - n)\<bar> \<le> of_int 1"
    by simp
  then have le: "\<bar>r - n\<bar> \<le> 1"
    unfolding of_int_abs [symmetric] of_int_le_iff .
  have "even r"
  proof (cases "\<bar>of_int r - y\<bar> = 1 / 2")
    case True
    then show ?thesis unfolding r_def by (rule round_half_even_tie)
  next
    case False
    with near have "\<bar>of_int r - y\<bar> < 1 / 2" by simp
    then have "\<bar>rat_of_int r - of_int n\<bar> < 1"
      using assms(1) by linarith
    then have "\<bar>rat_of_int (r - n)\<bar> < of_int 1"
      by simp
    then have "\<bar>r - n\<bar> < 1"
      unfolding of_int_abs [symmetric] of_int_less_iff .
    then have "r = n" by simp
    with assms(2) show ?thesis by simp
  qed
  with assms(2) have "even (r - n)" by simp
  with le have "r = n" by presburger
  then show ?thesis unfolding r_def .
qed

lemma rnd_eqI:
  assumes "2 ^ 52 \<le> \<bar>x\<bar> * 2 ^ k" and "\<bar>x\<bar> * 2 ^ k < 2 ^ 53"
    and "\<bar>x * 2 ^ k - of_int n\<bar> < 1 / 2 \<or> \<bar>x * 2 ^ k - of_int n\<bar> = 1 / 2 \<and> even n"
    and "y * 2 ^ k = of_int n"
  shows "rnd x = y"
proof -
  have pos: "0 < \<bar>x\<bar>"
  proof (rule ccontr)
    assume "\<not> 0 < \<bar>x\<bar>"
    then have "x = 0" by simp
    with assms(1) show False by simp
  qed
  have lt: "\<bar>x\<bar> < 2 ^ 52 \<or> k = 0"
  proof (cases k)
    case 0
    then show ?thesis by simp
  next
    case (Suc j)
    have "\<bar>x\<bar> * 1 \<le> \<bar>x\<bar> * 2 ^ j"
      by (rule mult_left_mono) simp_all
    moreover have "\<bar>x\<bar> * 2 ^ k = 2 * (\<bar>x\<bar> * 2 ^ j)" unfolding Suc by simp
    moreover have "(2::rat) ^ 53 = 2 * 2 ^ 52" by simp
    ultimately show ?thesis using assms(2) by linarith
  qed
  have u: "ulp \<bar>x\<bar> = 1 / 2 ^ k"
  proof (cases "2 ^ 52 \<le> \<bar>x\<bar>")
    case True
    with lt have k: "k = 0" by simp
    with assms(2) have "\<bar>x\<bar> < 2 ^ 53" by simp
    then show ?thesis using True k by (simp add: ulp_def ulp_hi.simps)
  next
    case False
    then show ?thesis
      using ulp_lo_shift [OF pos assms(1,2)] by (simp add: ulp_def)
  qed
  have "round_half_even (x * 2 ^ k) = n"
    using assms(3) round_half_even_eqI [of "x * 2 ^ k" n]
      round_half_even_tie_eqI [of "x * 2 ^ k" n] by blast
  moreover have "y = of_int n / 2 ^ k"
    using assms(4) by (simp add: field_simps)
  ultimately show ?thesis
    using pos by (simp add: rnd_def u Let_def)
qed











text \<open>
  \<^verbatim>\<open>round\<close> works on the double, not on the decimal it was written as: the double of
  0.45 lies above 0.45 and is rounded to 0.5, the double of 0.35 lies below 0.35 and is
  rounded to 0.3.
\<close>

lemma rnd_045: "rnd (9 / 20) = 8106479329266893 / 18014398509481984"
  by (rule rnd_eqI [where k = 54 and n = 8106479329266893]) simp_all

lemma rnd_035: "rnd (7 / 20) = 3152519739159347 / 9007199254740992"
  by (rule rnd_eqI [where k = 54 and n = 6305039478318694]) simp_all

lemma round1_f64_045: "round1_f64 (rnd (9 / 20)) = rnd (1 / 2)"
proof -
  have "round_half_even (8106479329266893 / 18014398509481984 * 10) = 5"
    by (rule round_half_even_eqI) simp
  then show ?thesis by (simp add: round1_f64_def py_round1_def rnd_045)
qed

lemma round1_f64_035: "round1_f64 (rnd (7 / 20)) = rnd (3 / 10)"
proof -
  have "round_half_even (3152519739159347 / 9007199254740992 * 10) = 3"
    by (rule round_half_even_eqI) simp
  then show ?thesis by (simp add: round1_f64_def py_round1_def rnd_035)
qed

section \<open>Rounding error of the aggregation on floats\<close>

text \<open>
  Every conversion and every addition of the loops is off by at most \<open>2^-22\<close> as long as
  the running totals stay below \<open>2^31\<close>.  The errors add up along the loops: the float
  total of \<open>n\<close> stored hours is within \<open>3 n / 2^22\<close> of their exact sum.
\<close>

lemma stored_hours_bound: "stored_hours (Some h) \<Longrightarrow> \<bar>h\<bar> \<le> 100000"
  by (simp add: stored_hours_def)

lemma stored_or_zero_bound: "stored_hours x \<Longrightarrow> \<bar>or_zero x\<bar> \<le> 100000"
  by (cases x) (simp_all add: stored_hours_def or_zero_def)

lemma add_one_err:
  assumes "\<bar>t - T\<bar> \<le> E" and "E \<le> 1" and "\<bar>h\<bar> \<le> 100000" and "\<bar>T\<bar> + 100000 \<le> 1073741824"
  shows "\<bar>rnd (t + rnd h) - (T + h)\<bar> \<le> E + 1 / 2097152"
proof -
  have "\<bar>h\<bar> \<le> 2147483648" using assms(3) by linarith
  then have a: "\<bar>rnd h - h\<bar> \<le> 1 / 4194304" by (rule rnd_abs)
  have "\<bar>t + rnd h\<bar> \<le> 2147483648"
    using a assms by linarith
  then have "\<bar>rnd (t + rnd h) - (t + rnd h)\<bar> \<le> 1 / 4194304" by (rule rnd_abs)
  with a assms(1) show ?thesis by linarith
qed

lemma add_detail_f64_err:
  assumes "list_all (\<lambda>d. stored_hours (hours d)) ds"
    and "\<bar>t - T\<bar> \<le> E"
    and "\<bar>T\<bar> + of_nat (length ds) * 100000 \<le> 1073741824"
    and "E + of_nat (length ds) * (1 / 2097152) \<le> 1"
  shows "\<bar>add_detail_hours_f64 ds t - add_detail_hours ds T\<bar> \<le> E + of_nat (length ds) * (1 / 2097152)"
  using assms
proof (induction ds arbitrary: t T E)
  case Nil
  then show ?case by simp
next
  case (Cons d ds)
  show ?case
  proof (cases "hours d")
    case None
    have "\<bar>add_detail_hours_f64 ds t - add_detail_hours ds T\<bar> \<le> E + of_nat (length ds) * (1 / 2097152)"
      using Cons.prems by (intro Cons.IH) (simp_all add: algebra_simps add_divide_distrib)
    then show ?thesis using None by (simp add: algebra_simps add_divide_distrib)
  next
    case (Some h)
    have h: "\<bar>h\<bar> \<le> 100000"
      using Cons.prems(1) Some by (simp add: stored_hours_def)
    have "E \<le> 1" "\<bar>T\<bar> + 100000 \<le> 1073741824"
      using Cons.prems(3,4) by (simp_all add: algebra_simps add_divide_distrib)
    with Cons.prems(2) h have one: "\<bar>rnd (t + rnd h) - (T + h)\<bar> \<le> E + 1 / 2097152"
      by (intro add_one_err)
    have "\<bar>add_detail_hours_f64 ds (rnd (t + rnd h)) - add_detail_hours ds (T + h)\<bar>
        \<le> (E + 1 / 2097152) + of_nat (length ds) * (1 / 2097152)"
    proof (rule Cons.IH [OF _ one])
      show "list_all (\<lambda>d. stored_hours (hours d)) ds"
        using Cons.prems(1) by simp
      show "\<bar>T + h\<bar> + of_nat (length ds) * 100000 \<le> 1073741824"
        using Cons.prems(3) h by (simp add: algebra_simps)
      show "E + 1 / 2097152 + of_nat (length ds) * (1 / 2097152) \<le> 1"
        using Cons.prems(4) by (simp add: algebra_simps add_divide_distrib)
    qed
    then show ?thesis using Some by (simp add: algebra_simps add_divide_distrib)
  qed
qed

lemma detail_sum_bound:
  "list_all (\<lambda>d. stored_hours (hours d)) ds \<Longrightarrow>
     \<bar>\<Sum>d\<leftarrow>ds. case hours d of None \<Rightarrow> 0 | Some h \<Rightarrow> h\<bar> \<le> of_nat (length ds) * 100000"
proof (induction ds)
  case Nil
  show ?case by simp
next
  case (Cons d ds)
  have "\<bar>case hours d of None \<Rightarrow> 0 | Some h \<Rightarrow> h\<bar> \<le> (100000 :: rat)"
    using Cons.prems by (simp add: stored_hours_def split: option.splits)
  moreover have "\<bar>\<Sum>d\<leftarrow>ds. case hours d of None \<Rightarrow> 0 | Some h \<Rightarrow> h\<bar> \<le> of_nat (length ds) * 100000"
    using Cons by simp
  ultimately show ?case by (simp add: algebra_simps)
qed

lemma item_actual_bound:
  assumes "stored_item it"
  shows "\<bar>itemActualHours it\<bar> \<le> of_nat (hour_entries it) * 100000"
proof (cases "details it = []")
  case True
  then show ?thesis
    using assms stored_or_zero_bound [of "estimated_hours it"]
    by (simp add: itemActualHours_def hour_entries_def stored_item_def or_zero_eq)
next
  case False
  then have "1 \<le> length (details it)" by (cases "details it") simp_all
  then show ?thesis
    using assms detail_sum_bound [of "details it"] False
    by (simp add: itemActualHours_def hour_entries_def stored_item_def)
qed

lemma item_estimated_bound:
  assumes "stored_item it"
  shows "\<bar>itemEstimatedHours it\<bar> \<le> 100000"
  using assms stored_or_zero_bound [of "estimated_hours it"]
  by (simp add: itemEstimatedHours_def stored_item_def or_zero_eq)

lemma hour_entries_pos: "1 \<le> hour_entries it"
  by (cases "details it") (simp_all add: hour_entries_def)



lemma acc_step_f64_err:
  assumes st: "stored_item it"
    and e: "\<bar>estimated s - Es\<bar> \<le> E" and a: "\<bar>actual s - As\<bar> \<le> E"
    and mE: "\<bar>Es\<bar> + of_nat (hour_entries it) * 100000 \<le> 1073741824"
    and mA: "\<bar>As\<bar> + of_nat (hour_entries it) * 100000 \<le> 1073741824"
    and small: "E + of_nat (hour_entries it) * (3 / 4194304) \<le> 1"
  shows "\<bar>estimated (acc_step_f64 it s) - (Es + itemEstimatedHours it)\<bar>
           \<le> E + of_nat (hour_entries it) * (3 / 4194304)
       \<and> \<bar>actual (acc_step_f64 it s) - (As + itemActualHours it)\<bar>
           \<le> E + of_nat (hour_entries it) * (3 / 4194304)
       \<and> items (acc_step_f64 it s) = items s + 1"
proof -
  define w where "w = (of_nat (hour_entries it) :: rat)"
  have w1: "1 \<le> w"
    unfolding w_def using hour_entries_pos [of it] by simp
  note mE' = mE [folded w_def] and mA' = mA [folded w_def] and small' = small [folded w_def]
  define h0 where "h0 = or_zero (estimated_hours it)"
  have h0: "\<bar>h0\<bar> \<le> 100000"
    unfolding h0_def using st by (intro stored_or_zero_bound) (simp add: stored_item_def)
  have h0e: "h0 = itemEstimatedHours it"
    by (simp add: h0_def or_zero_eq itemEstimatedHours_def)
  have E1: "E \<le> 1" using small' w1 by linarith
  have est: "\<bar>rnd (estimated s + rnd h0) - (Es + h0)\<bar> \<le> E + 1 / 2097152"
    using e E1 h0 by (rule add_one_err) (use mE' w1 in linarith)
  have act: "\<bar>rnd (actual s + (if details it \<noteq> [] then add_detail_hours_f64 (details it) 0 else rnd h0))
                - (As + itemActualHours it)\<bar> \<le> E + w * (3 / 4194304)"
  proof (cases "details it = []")
    case True
    have "\<bar>rnd (actual s + rnd h0) - (As + h0)\<bar> \<le> E + 1 / 2097152"
      using a E1 h0 by (rule add_one_err) (use mA' w1 in linarith)
    moreover have "itemActualHours it = h0"
      using True by (simp add: itemActualHours_def h0_def or_zero_eq)
    ultimately show ?thesis using True w1 by simp
  next
    case False
    define S where "S = (\<Sum>d\<leftarrow>details it. case hours d of None \<Rightarrow> 0 | Some h \<Rightarrow> h)"
    define n where "n = (of_nat (length (details it)) :: rat)"
    have wn: "w = n" using False by (simp add: w_def n_def hour_entries_def)
    have ds: "list_all (\<lambda>d. stored_hours (hours d)) (details it)"
      using st by (simp add: stored_item_def)
    have Sb: "\<bar>S\<bar> \<le> n * 100000"
      unfolding S_def n_def using ds by (rule detail_sum_bound)
    have "\<bar>add_detail_hours_f64 (details it) 0 - add_detail_hours (details it) 0\<bar>
        \<le> 0 + of_nat (length (details it)) * (1 / 2097152)"
    proof (rule add_detail_f64_err [OF ds])
      show "\<bar>(0::rat) - 0\<bar> \<le> 0" by simp
      have "\<bar>0::rat\<bar> + n * 100000 \<le> 1073741824" using mE' wn by simp
      then show "\<bar>0::rat\<bar> + of_nat (length (details it)) * 100000 \<le> 1073741824"
        unfolding n_def .
      have "0 \<le> E" using e by linarith
      then have "0 + n * (1 / 2097152) \<le> (1::rat)" using small' wn w1 by simp
      then show "0 + of_nat (length (details it)) * (1 / 2097152) \<le> (1::rat)"
        unfolding n_def .
    qed
    then have d: "\<bar>add_detail_hours_f64 (details it) 0 - S\<bar> \<le> n * (1 / 2097152)"
      by (simp add: add_detail_hours_sum S_def n_def)
    define x where "x = actual s + add_detail_hours_f64 (details it) 0"
    have "0 \<le> E" using e by linarith
    have xs: "\<bar>x - (As + S)\<bar> \<le> E + n * (1 / 2097152)"
      unfolding x_def using a d by linarith
    have "\<bar>x\<bar> \<le> 2147483648"
      using xs Sb mA' small' wn w1 \<open>0 \<le> E\<close> by (simp add: abs_le_iff) linarith
    then have "\<bar>rnd x - x\<bar> \<le> 1 / 4194304" by (rule rnd_abs)
    with xs have "\<bar>rnd x - (As + S)\<bar> \<le> E + n * (1 / 2097152) + 1 / 4194304"
      by linarith
    also have "\<dots> \<le> E + w * (3 / 4194304)"
      using wn w1 by simp
    finally have "\<bar>rnd x - (As + S)\<bar> \<le> E + w * (3 / 4194304)" .
    moreover have "itemActualHours it = S"
      using False by (cases "details it") (simp_all add: itemActualHours_def S_def)
    ultimately show ?thesis using False by (simp add: x_def)
  qed
  have "E + 1 / 2097152 \<le> E + w * (3 / 4194304)" using w1 by simp
  with est have est': "\<bar>rnd (estimated s + rnd h0) - (Es + h0)\<bar> \<le> E + w * (3 / 4194304)"
    by linarith
  have eq: "acc_step_f64 it s =
      \<lparr>estimated = rnd (estimated s + rnd h0),
       actual = rnd (actual s + (if details it \<noteq> [] then add_detail_hours_f64 (details it) 0 else rnd h0)),
       items = items s + 1\<rparr>"
    by (simp add: acc_step_f64_def Let_def h0_def)
  show ?thesis
    unfolding eq using est' act by (simp add: w_def h0e)
qed

lemma acc_fold_f64_err:
  assumes "list_all stored_item its"
    and "\<bar>estimated s - Es\<bar> \<le> E" and "\<bar>actual s - As\<bar> \<le> E"
    and "\<bar>Es\<bar> + of_nat (sum_list (map hour_entries its)) * 100000 \<le> 1073741824"
    and "\<bar>As\<bar> + of_nat (sum_list (map hour_entries its)) * 100000 \<le> 1073741824"
    and "E + of_nat (sum_list (map hour_entries its)) * (3 / 4194304) \<le> 1"
  shows "\<bar>estimated (fold acc_step_f64 its s) - (Es + (\<Sum>it\<leftarrow>its. itemEstimatedHours it))\<bar>
           \<le> E + of_nat (sum_list (map hour_entries its)) * (3 / 4194304)
       \<and> \<bar>actual (fold acc_step_f64 its s) - (As + (\<Sum>it\<leftarrow>its. itemActualHours it))\<bar>
           \<le> E + of_nat (sum_list (map hour_entries its)) * (3 / 4194304)
       \<and> items (fold acc_step_f64 its s) = items s + length its"
  using assms
proof (induction its arbitrary: s Es As E)
  case Nil
  then show ?case by simp
next
  case (Cons it its)
  define w where "w = (of_nat (hour_entries it) :: rat)"
  define W where "W = (of_nat (sum_list (map hour_entries its)) :: rat)"
  have nonneg: "0 \<le> w" "0 \<le> W" by (simp_all add: w_def W_def)
  have w1: "1 \<le> w"
    unfolding w_def using hour_entries_pos [of it] by simp
  have pE: "\<bar>Es\<bar> + (w + W) * 100000 \<le> 1073741824"
    using Cons.prems(4) by (simp add: w_def W_def)
  have pA: "\<bar>As\<bar> + (w + W) * 100000 \<le> 1073741824"
    using Cons.prems(5) by (simp add: w_def W_def)
  have ps: "E + (w + W) * (3 / 4194304) \<le> 1"
    using Cons.prems(6) by (simp add: w_def W_def)
  have st: "stored_item it" "list_all stored_item its"
    using Cons.prems(1) by simp_all
  define s' where "s' = acc_step_f64 it s"
  have one: "\<bar>estimated s' - (Es + itemEstimatedHours it)\<bar> \<le> E + w * (3 / 4194304)
       \<and> \<bar>actual s' - (As + itemActualHours it)\<bar> \<le> E + w * (3 / 4194304)
       \<and> items s' = items s + 1"
    unfolding s'_def w_def
  proof (rule acc_step_f64_err [OF st(1) Cons.prems(2,3)])
    have "\<bar>Es\<bar> + w * 100000 \<le> 1073741824"
      using pE nonneg by (simp add: algebra_simps)
    then show "\<bar>Es\<bar> + of_nat (hour_entries it) * 100000 \<le> 1073741824"
      unfolding w_def .
    have "\<bar>As\<bar> + w * 100000 \<le> 1073741824"
      using pA nonneg by (simp add: algebra_simps)
    then show "\<bar>As\<bar> + of_nat (hour_entries it) * 100000 \<le> 1073741824"
      unfolding w_def .
    have "E + w * (3 / 4194304) \<le> 1"
      using ps nonneg by (simp add: algebra_simps add_divide_distrib)
    then show "E + of_nat (hour_entries it) * (3 / 4194304) \<le> 1"
      unfolding w_def .
  qed
  have bE: "\<bar>itemEstimatedHours it\<bar> \<le> w * 100000"
    using item_estimated_bound [OF st(1)] w1 by simp
  have bA: "\<bar>itemActualHours it\<bar> \<le> w * 100000"
    unfolding w_def using st(1) by (rule item_actual_bound)
  have rest: "\<bar>estimated (fold acc_step_f64 its s')
        - (Es + itemEstimatedHours it + (\<Sum>it\<leftarrow>its. itemEstimatedHours it))\<bar>
           \<le> (E + w * (3 / 4194304)) + of_nat (sum_list (map hour_entries its)) * (3 / 4194304)
       \<and> \<bar>actual (fold acc_step_f64 its s')
        - (As + itemActualHours it + (\<Sum>it\<leftarrow>its. itemActualHours it))\<bar>
           \<le> (E + w * (3 / 4194304)) + of_nat (sum_list (map hour_entries its)) * (3 / 4194304)
       \<and> items (fold acc_step_f64 its s') = items s' + length its"
  proof (rule Cons.IH [OF st(2)])
    show "\<bar>estimated s' - (Es + itemEstimatedHours it)\<bar> \<le> E + w * (3 / 4194304)"
      using one by simp
    show "\<bar>actual s' - (As + itemActualHours it)\<bar> \<le> E + w * (3 / 4194304)"
      using one by simp
    have "\<bar>Es + itemEstimatedHours it\<bar> + W * 100000 \<le> 1073741824"
      using pE bE by (simp add: algebra_simps)
    then show "\<bar>Es + itemEstimatedHours it\<bar>
        + of_nat (sum_list (map hour_entries its)) * 100000 \<le> 1073741824"
      unfolding W_def .
    have "\<bar>As + itemActualHours it\<bar> + W * 100000 \<le> 1073741824"
      using pA bA by (simp add: algebra_simps)
    then show "\<bar>As + itemActualHours it\<bar>
        + of_nat (sum_list (map hour_entries its)) * 100000 \<le> 1073741824"
      unfolding W_def .
    have "E + w * (3 / 4194304) + W * (3 / 4194304) \<le> 1"
      using ps by (simp add: algebra_simps add_divide_distrib)
    then show "E + w * (3 / 4194304) + of_nat (sum_list (map hour_entries its)) * (3 / 4194304) \<le> 1"
      unfolding W_def .
  qed
  have "fold acc_step_f64 (it # its) s = fold acc_step_f64 its s'"
    by (simp add: s'_def)
  with rest one show ?case
    by (simp add: w_def algebra_simps add_divide_distrib)
qed

text \<open>The entry of a plan in the dictionary on floats, before the rounding loop.\<close>

lemma stats_step_f64_same:
  "stats_step_f64 it m (plan_id it) = Some (acc_step_f64 it (entry_or_zero (m (plan_id it))))"
  by (simp add: stats_step_f64_def acc_step_f64_def Let_def entry_or_zero_def split: option.splits)

lemma stats_step_f64_other:
  "pid \<noteq> plan_id it \<Longrightarrow> stats_step_f64 it m pid = m pid"
  by (simp add: stats_step_f64_def Let_def split: option.splits)

lemma fold_stats_step_f64:
  "fold stats_step_f64 its m pid =
     (if items_of its pid = [] then m pid
      else Some (fold acc_step_f64 (items_of its pid) (entry_or_zero (m pid))))"
proof (induction its arbitrary: m)
  case Nil
  show ?case by (simp add: items_of_def)
next
  case (Cons it its)
  show ?case
  proof (cases "plan_id it = pid")
    case True
    then show ?thesis
      using Cons [of "stats_step_f64 it m"] stats_step_f64_same [of it m]
      by (auto simp: items_of_def entry_or_zero_def)
  next
    case False
    then show ?thesis
      using Cons [of "stats_step_f64 it m"] stats_step_f64_other [of pid it m]
      by (auto simp: items_of_def)
  qed
qed

lemma stats_accumulated_f64_entry:
  "stats_accumulated_f64 plan_items plan_ids pid =
     (if pid \<in> set plan_ids then Some (fold acc_step_f64 (items_of plan_items pid) zero_stats)
      else None)"
proof (cases "pid \<in> set plan_ids")
  case True
  then show ?thesis
    by (simp add: stats_accumulated_f64_def Let_def fold_stats_step_f64 seed_stats
        items_of_selected entry_or_zero_def)
next
  case False
  then show ?thesis
    by (simp add: stats_accumulated_f64_def Let_def fold_stats_step_f64 seed_stats
        items_of_unselected)
qed

text \<open>
  Stored hours are multiples of one tenth, and so are their sums.  A float within 0.01 of
  such a multiple is rounded to it, half up as well as half even.
\<close>

lemma stored_tenth:
  assumes "stored_hours x"
  shows "\<exists>k::int. (case x of None \<Rightarrow> 0 | Some h \<Rightarrow> h) = of_int k / 10"
proof (cases x)
  case None
  have "(0::rat) = of_int 0 / 10" by simp
  with None show ?thesis by (auto intro: exI [of _ 0])
next
  case (Some h)
  then have "\<exists>n::int. h * 10 = of_int n"
    using assms by (simp add: stored_hours_def)
  then obtain n :: int where "h * 10 = of_int n" ..
  then have "h = of_int n / 10" by simp
  with Some show ?thesis by (intro exI [of _ n]) (simp only: option.case)
qed

lemma tenth_add:
  assumes "\<exists>k::int. a = rat_of_int k / 10" and "\<exists>k::int. b = rat_of_int k / 10"
  shows "\<exists>k::int. a + b = rat_of_int k / 10"
proof -
  from assms obtain i j :: int where "a = of_int i / 10" "b = of_int j / 10" by blast
  then have "a + b = of_int (i + j) / 10" by (simp add: add_divide_distrib)
  then show ?thesis ..
qed

lemma tenth_sum_list:
  assumes "\<And>x. x \<in> set xs \<Longrightarrow> \<exists>k::int. f x = rat_of_int k / 10"
  shows "\<exists>k::int. (\<Sum>x\<leftarrow>xs. f x) = rat_of_int k / 10"
  using assms
proof (induction xs)
  case Nil
  have "(0::rat) = of_int 0 / 10" by simp
  then show ?case by (auto intro: exI [of _ 0])
next
  case (Cons x xs)
  have "\<exists>k::int. f x = rat_of_int k / 10" using Cons.prems by simp
  moreover have "\<exists>k::int. (\<Sum>x\<leftarrow>xs. f x) = rat_of_int k / 10"
    using Cons by simp
  ultimately show ?case using tenth_add by simp
qed

lemma item_estimated_tenth:
  "stored_item it \<Longrightarrow> \<exists>k::int. itemEstimatedHours it = of_int k / 10"
  using stored_tenth [of "estimated_hours it"] by (simp add: stored_item_def itemEstimatedHours_def)

lemma item_actual_tenth:
  assumes "stored_item it"
  shows "\<exists>k::int. itemActualHours it = of_int k / 10"
proof (cases "details it = []")
  case True
  then show ?thesis
    using assms stored_tenth [of "estimated_hours it"]
    by (simp add: stored_item_def itemActualHours_def)
next
  case False
  then have len: "1 \<le> length (details it)" by (cases "details it") simp_all
  have "\<exists>k::int. (\<Sum>d\<leftarrow>details it. case hours d of None \<Rightarrow> 0 | Some h \<Rightarrow> h) = of_int k / 10"
  proof (rule tenth_sum_list)
    fix d assume "d \<in> set (details it)"
    then have "stored_hours (hours d)"
      using assms by (simp add: stored_item_def list_all_iff)
    then show "\<exists>k::int. (case hours d of None \<Rightarrow> 0 | Some h \<Rightarrow> h) = of_int k / 10"
      by (rule stored_tenth)
  qed
  then show ?thesis using len by (simp add: itemActualHours_def)
qed

lemma stored_sums_tenth:
  assumes "list_all stored_item its"
  shows "\<exists>k::int. (\<Sum>it\<leftarrow>its. itemEstimatedHours it) = of_int k / 10"
    and "\<exists>k::int. (\<Sum>it\<leftarrow>its. itemActualHours it) = of_int k / 10"
proof -
  show "\<exists>k::int. (\<Sum>it\<leftarrow>its. itemEstimatedHours it) = of_int k / 10"
  proof (rule tenth_sum_list)
    fix it assume "it \<in> set its"
    then have "stored_item it" using assms by (simp add: list_all_iff)
    then show "\<exists>k::int. itemEstimatedHours it = of_int k / 10"
      by (rule item_estimated_tenth)
  qed
  show "\<exists>k::int. (\<Sum>it\<leftarrow>its. itemActualHours it) = of_int k / 10"
  proof (rule tenth_sum_list)
    fix it assume "it \<in> set its"
    then have "stored_item it" using assms by (simp add: list_all_iff)
    then show "\<exists>k::int. itemActualHours it = of_int k / 10"
      by (rule item_actual_tenth)
  qed
qed

lemma near_tenth:
  assumes "\<bar>x - of_int k / 10\<bar> \<le> 1 / 100"
  shows "py_round1 x = of_int k / 10" and "round_half_up1 x = of_int k / 10"
proof -
  have "\<bar>x * 10 - of_int k\<bar> < 1 / 2"
    using assms by linarith
  then have "round_half_even (x * 10) = k"
    by (rule round_half_even_eqI)
  then show "py_round1 x = of_int k / 10"
    by (simp add: py_round1_def)
  have "\<lfloor>x * 10 + 1 / 2\<rfloor> = k"
  proof (rule floor_unique)
    show "of_int k \<le> x * 10 + 1 / 2"
      using assms by linarith
    show "x * 10 + 1 / 2 < of_int k + 1"
      using assms by linarith
  qed
  then show "round_half_up1 x = of_int k / 10"
    by (simp add: round_half_up1_def)
qed

text \<open>For the items of a plan of ordinary size the float totals are within 0.01 of the sums.\<close>

lemma stored_acc_near:
  assumes "stored_items its"
  shows "\<bar>estimated (fold acc_step_f64 its zero_stats) - (\<Sum>it\<leftarrow>its. itemEstimatedHours it)\<bar> \<le> 1 / 100"
    and "\<bar>actual (fold acc_step_f64 its zero_stats) - (\<Sum>it\<leftarrow>its. itemActualHours it)\<bar> \<le> 1 / 100"
    and "items (fold acc_step_f64 its zero_stats) = length its"
proof -
  define W where "W = (of_nat (sum_list (map hour_entries its)) :: rat)"
  have "sum_list (map hour_entries its) \<le> 10000"
    using assms by (simp add: stored_items_def)
  then have "(of_nat (sum_list (map hour_entries its)) :: rat) \<le> of_nat 10000"
    unfolding of_nat_le_iff .
  then have W: "W \<le> 10000" by (simp add: W_def)
  have st: "list_all stored_item its"
    using assms by (simp add: stored_items_def)
  have "\<bar>estimated (fold acc_step_f64 its zero_stats) - (0 + (\<Sum>it\<leftarrow>its. itemEstimatedHours it))\<bar>
           \<le> 0 + of_nat (sum_list (map hour_entries its)) * (3 / 4194304)
       \<and> \<bar>actual (fold acc_step_f64 its zero_stats) - (0 + (\<Sum>it\<leftarrow>its. itemActualHours it))\<bar>
           \<le> 0 + of_nat (sum_list (map hour_entries its)) * (3 / 4194304)
       \<and> items (fold acc_step_f64 its zero_stats) = items zero_stats + length its"
  proof (rule acc_fold_f64_err [OF st])
    show "\<bar>estimated zero_stats - 0\<bar> \<le> 0" "\<bar>actual zero_stats - 0\<bar> \<le> 0"
      by (simp_all add: zero_stats_def)
    have m: "\<bar>0::rat\<bar> + W * 100000 \<le> 1073741824" using W by simp
    from m show "\<bar>0::rat\<bar> + of_nat (sum_list (map hour_entries its)) * 100000 \<le> 1073741824"
      unfolding W_def .
    from m show "\<bar>0::rat\<bar> + of_nat (sum_list (map hour_entries its)) * 100000 \<le> 1073741824"
      unfolding W_def .
    have "0 + W * (3 / 4194304) \<le> (1::rat)" using W by simp
    then show "0 + of_nat (sum_list (map hour_entries its)) * (3 / 4194304) \<le> (1::rat)"
      unfolding W_def .
  qed
  moreover have "W * (3 / 4194304) \<le> 1 / 100" using W by simp
  ultimately show
    "\<bar>estimated (fold acc_step_f64 its zero_stats) - (\<Sum>it\<leftarrow>its. itemEstimatedHours it)\<bar> \<le> 1 / 100"
    "\<bar>actual (fold acc_step_f64 its zero_stats) - (\<Sum>it\<leftarrow>its. itemActualHours it)\<bar> \<le> 1 / 100"
    "items (fold acc_step_f64 its zero_stats) = length its"
    unfolding W_def [symmetric] by (simp_all add: zero_stats_def)
qed


text \<open>
  On stored hours the statistics on floats are the statistics in exact arithmetic, each
  number replaced by its double.
\<close>

lemma stats_f64_stored:
  assumes "plan_ids \<noteq> []" and "pid \<in> set plan_ids"
    and "stored_items (items_of plan_items pid)"
  shows "get_plan_item_stats_f64 plan_items plan_ids pid =
     Some \<lparr>estimated = rnd (\<Sum>it\<leftarrow>items_of plan_items pid. itemEstimatedHours it),
           actual = rnd (\<Sum>it\<leftarrow>items_of plan_items pid. itemActualHours it),
           items = length (items_of plan_items pid)\<rparr>"
proof -
  define its where "its = items_of plan_items pid"
  define a where "a = fold acc_step_f64 its zero_stats"
  have st: "list_all stored_item its"
    using assms(3) by (simp add: stored_items_def its_def)
  obtain ke ka :: int where k: "(\<Sum>it\<leftarrow>its. itemEstimatedHours it) = of_int ke / 10"
    "(\<Sum>it\<leftarrow>its. itemActualHours it) = of_int ka / 10"
    using stored_sums_tenth [OF st] by blast
  have near: "\<bar>estimated a - of_int ke / 10\<bar> \<le> 1 / 100" "\<bar>actual a - of_int ka / 10\<bar> \<le> 1 / 100"
    "items a = length its"
    using stored_acc_near [of its] assms(3) unfolding a_def its_def [symmetric] k by simp_all
  have "get_plan_item_stats_f64 plan_items plan_ids pid = Some (round_stats_f64 a)"
    using assms(1,2)
    by (simp add: get_plan_item_stats_f64_def Let_def stats_accumulated_f64_entry a_def its_def)
  also have "round_stats_f64 a =
      \<lparr>estimated = rnd (of_int ke / 10), actual = rnd (of_int ka / 10), items = length its\<rparr>"
    unfolding round_stats_f64_def round1_f64_def near_tenth(1) [OF near(1)]
      near_tenth(1) [OF near(2)]
    using near(3) by (cases a) simp
  finally show ?thesis
    unfolding k [symmetric] its_def .
qed

lemma stats_f64_exact:
  assumes "stored_items (items_of plan_items pid)"
  shows "get_plan_item_stats_f64 plan_items plan_ids pid =
     map_option (\<lambda>s. s\<lparr>estimated := rnd (estimated s), actual := rnd (actual s)\<rparr>)
       (get_plan_item_stats plan_items plan_ids pid)"
proof (cases "plan_ids \<noteq> [] \<and> pid \<in> set plan_ids")
  case True
  have st: "list_all stored_item (items_of plan_items pid)"
    using assms by (simp add: stored_items_def)
  obtain ke ka :: int where
    k: "(\<Sum>it\<leftarrow>items_of plan_items pid. itemEstimatedHours it) = of_int ke / 10"
      "(\<Sum>it\<leftarrow>items_of plan_items pid. itemActualHours it) = of_int ka / 10"
    using stored_sums_tenth [OF st] by blast
  show ?thesis
    using True stats_f64_stored [of plan_ids pid plan_items] assms
    by (simp add: stats_entries k py_round1_tenth)
next
  case False
  then show ?thesis
    by (auto simp: get_plan_item_stats_f64_def get_plan_item_stats_def
        stats_accumulated_f64_entry stats_before_rounding Let_def)
qed












section \<open>Properties of the operations on plans\<close>

lemma db_get_unknown:
  "\<forall>r \<in> set rows. pk r \<noteq> i \<Longrightarrow>
     db_get pk rows i = (if in_int64 i then Inr None else Inl OverflowError)"
  by (auto simp: db_get_def find_None_iff)


lemma unknown_plan_lookup:
  assumes "\<forall>p \<in> set plans. wplan_id p \<noteq> pid"
  shows "db_get wplan_id plans pid = (if in_int64 pid then Inr None else Inl OverflowError)"
  using assms by (rule db_get_unknown)



text \<open>
  Claim C7 says that every operation taking a plan id answers an unknown id with an absent
  result and never with an exception.  For the unknown id 8, \<^verbatim>\<open>sum_plan_hours\<close> returns
  the number 0.0, as it does for the known plan 7 without items, and the two template
  operations raise \<^verbatim>\<open>ValueError\<close>; for the unknown id \<open>2^63\<close> the lookup of \<^verbatim>\<open>get_plan\<close>
  itself raises \<^verbatim>\<open>OverflowError\<close>.
\<close>

theorem unknown_plan_counterexample:
  "get_plan [plan_7] 8 = Inr None
   \<and> sum_plan_hours [plan_7] [item_305] 8 = Inr 0
   \<and> sum_plan_hours [plan_7] [item_305] 7 = Inr 0
   \<and> create_plan_template_from_plan (\<lambda>p n. n) [plan_7] [tpl_1] 8 ''monthly''
       = Inl (ValueError ''plan_not_found'')
   \<and> apply_plan_template_to_plan (\<lambda>p t m. m) [plan_7] [tpl_1] 8 1 ''append''
       = Inl (ValueError ''not_found'')
   \<and> get_plan [plan_7] (2 ^ 63) = Inl OverflowError"
  by (simp add: get_plan_def sum_plan_hours_def create_plan_template_from_plan_def
      apply_plan_template_to_plan_def db_get_def in_int64_def plan_7_def tpl_1_def items_of_def
      item_305_def strip_def is_space_def Let_def)

text \<open>
  Claim C7, amended.  For every plan id not present in the store, each of the five
  operations that look the plan up answers as follows.  If the id fits the 64-bit key of
  the database, \<^verbatim>\<open>get_plan\<close> and \<^verbatim>\<open>set_plan_status\<close> return \<^verbatim>\<open>None\<close>, the latter
  changing nothing, \<^verbatim>\<open>sum_plan_hours\<close> returns 0.0,
  \<^verbatim>\<open>create_plan_template_from_plan\<close> raises \<^verbatim>\<open>ValueError("plan_not_found")\<close> once the
  template name has passed its two checks, and \<^verbatim>\<open>apply_plan_template_to_plan\<close> raises
  \<^verbatim>\<open>ValueError("not_found")\<close>, or \<^verbatim>\<open>OverflowError\<close> when the template id does not fit.
  If the plan id does not fit, the lookup raises \<^verbatim>\<open>OverflowError\<close> in each of them.
\<close>

theorem unknown_plan_results:
  assumes "\<forall>p \<in> set plans. wplan_id p \<noteq> pid"
  shows "get_plan plans pid = (if in_int64 pid then Inr None else Inl OverflowError)
    \<and> set_plan_status plans pid new_status
        = (if in_int64 pid then Inr (plans, None) else Inl OverflowError)
    \<and> sum_plan_hours plans plan_items pid = (if in_int64 pid then Inr 0 else Inl OverflowError)
    \<and> create_plan_template_from_plan create_rows plans templates pid name0
        = (if strip name0 = [] then Inl (ValueError ''template_name_required'')
           else if find (\<lambda>t. tpl_name t = strip name0) templates \<noteq> None
             then Inl (ValueError ''template_name_exists'')
           else if in_int64 pid then Inl (ValueError ''plan_not_found'')
           else Inl OverflowError)
    \<and> apply_plan_template_to_plan copy_rows plans templates pid template_id mode
        = (if in_int64 pid \<and> in_int64 template_id then Inl (ValueError ''not_found'')
           else Inl OverflowError)"
proof -
  note g = unknown_plan_lookup [OF assms]
  have "get_plan plans pid = (if in_int64 pid then Inr None else Inl OverflowError)"
    by (simp add: get_plan_def g)
  moreover have "set_plan_status plans pid new_status
        = (if in_int64 pid then Inr (plans, None) else Inl OverflowError)"
    by (simp add: set_plan_status_def g)
  moreover have "sum_plan_hours plans plan_items pid
        = (if in_int64 pid then Inr 0 else Inl OverflowError)"
    by (simp add: sum_plan_hours_def g)
  moreover have "create_plan_template_from_plan create_rows plans templates pid name0
        = (if strip name0 = [] then Inl (ValueError ''template_name_required'')
           else if find (\<lambda>t. tpl_name t = strip name0) templates \<noteq> None
             then Inl (ValueError ''template_name_exists'')
           else if in_int64 pid then Inl (ValueError ''plan_not_found'')
           else Inl OverflowError)"
    by (simp add: create_plan_template_from_plan_def Let_def g)
  moreover have "apply_plan_template_to_plan copy_rows plans templates pid template_id mode
        = (if in_int64 pid \<and> in_int64 template_id then Inl (ValueError ''not_found'')
           else Inl OverflowError)"
    unfolding apply_plan_template_to_plan_def g
    by (simp add: db_get_def split: option.splits)
  ultimately show ?thesis by (simp only: simp_thms)
qed

text \<open>
  The store with plan 7 and the ids 8, \<open>2^63\<close> and \<open>-2^63 - 1\<close>; a template name that is
  taken is refused before the plan is looked up.
\<close>

theorem unknown_plan_results_witness:
  "get_plan [plan_7] 8 = Inr None
   \<and> set_plan_status [plan_7] 8 ''submitted'' = Inr ([plan_7], None)
   \<and> sum_plan_hours [plan_7] [item_305] 8 = Inr 0
   \<and> create_plan_template_from_plan (\<lambda>p n. n) [plan_7] [tpl_1] 8 '' monthly ''
       = Inl (ValueError ''plan_not_found'')
   \<and> create_plan_template_from_plan (\<lambda>p n. n) [plan_7] [tpl_1] 8 '' weekly''
       = Inl (ValueError ''template_name_exists'')
   \<and> apply_plan_template_to_plan (\<lambda>p t m. m) [plan_7] [tpl_1] 8 1 ''replace''
       = Inl (ValueError ''not_found'')
   \<and> set_plan_status [plan_7] (2 ^ 63) ''submitted'' = Inl OverflowError
   \<and> sum_plan_hours [plan_7] [item_305] (- (2 ^ 63) - 1) = Inl OverflowError
   \<and> create_plan_template_from_plan (\<lambda>p n. n) [plan_7] [tpl_1] (2 ^ 63) ''monthly''
       = Inl OverflowError"
  using unknown_plan_results [of "[plan_7]" 8 "''submitted''" "[item_305]" "\<lambda>p n. n" "[tpl_1]"
      "'' monthly ''" "\<lambda>p t m. m" 1 "''replace''"]
    unknown_plan_results [of "[plan_7]" 8 "''submitted''" "[item_305]" "\<lambda>p n. n" "[tpl_1]"
      "'' weekly''" "\<lambda>p t m. m" 1 "''replace''"]
    unknown_plan_results [of "[plan_7]" "2 ^ 63" "''submitted''" "[item_305]" "\<lambda>p n. n" "[tpl_1]"
      "''monthly''" "\<lambda>p t m. m" 1 "''replace''"]
    unknown_plan_results [of "[plan_7]" "- (2 ^ 63) - 1" "''submitted''" "[item_305]" "\<lambda>p n. n" "[tpl_1]"
      "''monthly''" "\<lambda>p t m. m" 1 "''replace''"]
  by (simp add: in_int64_def plan_7_def tpl_1_def strip_def is_space_def)

section \<open>Properties of the calendar\<close>

lemma div_pred:
  fixes y c :: int
  assumes "0 < c"
  shows "(y - 1) div c = y div c - (if y mod c = 0 then 1 else 0)"
proof (cases "y mod c = 0")
  case True
  have "y - 1 = c * (y div c - 1) + (c - 1)"
    using True by (simp add: algebra_simps) (metis mult.commute mult_div_mod_eq add.right_neutral)
  then have "(y - 1) div c = y div c - 1"
    using assms by (intro int_div_pos_eq [where r = "c - 1"]) simp_all
  with True show ?thesis by simp
next
  case False
  have "0 \<le> y mod c" "y mod c < c"
    using assms by simp_all
  with False have r: "0 \<le> y mod c - 1" "y mod c - 1 < c"
    by linarith+
  have "y - 1 = c * (y div c) + (y mod c - 1)"
    by (simp add: algebra_simps)
  then have "(y - 1) div c = y div c"
    using r by (intro int_div_pos_eq [where r = "y mod c - 1"]) simp_all
  with False show ?thesis by simp
qed


lemma mod_100_4: "(y::int) mod 100 = 0 \<Longrightarrow> y mod 4 = 0"
proof -
  assume "y mod 100 = 0"
  then have "100 dvd y" by (simp add: dvd_eq_mod_eq_0)
  moreover have "(4::int) dvd 100" by simp
  ultimately have "4 dvd y" by (rule dvd_trans [rotated])
  then show ?thesis by (simp add: dvd_eq_mod_eq_0)
qed

lemma mod_400_100: "(y::int) mod 400 = 0 \<Longrightarrow> y mod 100 = 0"
proof -
  assume "y mod 400 = 0"
  then have "400 dvd y" by (simp add: dvd_eq_mod_eq_0)
  moreover have "(100::int) dvd 400" by simp
  ultimately have "100 dvd y" by (rule dvd_trans [rotated])
  then show ?thesis by (simp add: dvd_eq_mod_eq_0)
qed

lemma days_before_year_step:
  "days_before_year (y + 1) = days_before_year y + (if is_leap y then 366 else 365)"
proof -
  have d4: "(y - 1) div 4 = y div 4 - (if y mod 4 = 0 then 1 else 0)"
    by (rule div_pred) simp
  have d100: "(y - 1) div 100 = y div 100 - (if y mod 100 = 0 then 1 else 0)"
    by (rule div_pred) simp
  have d400: "(y - 1) div 400 = y div 400 - (if y mod 400 = 0 then 1 else 0)"
    by (rule div_pred) simp
  show ?thesis
    using mod_100_4 [of y] mod_400_100 [of y]
    by (auto simp: days_before_year_def is_leap_def Let_def d4 d100 d400)
qed

lemma first_day_of_year: "ymd2ord y 1 1 = days_before_year y + 1"
  by (simp add: ymd2ord_def days_before_month_def DAYS_BEFORE_MONTH_def)

lemma week1monday_arith:
  fixes f :: int
  defines "w \<equiv> (if (f + 6) mod 7 > 3 then f - (f + 6) mod 7 + 7 else f - (f + 6) mod 7)"
  shows "f - 3 \<le> w" "w \<le> f + 3" "w mod 7 = 1"
proof -
  define q where "q = (f + 6) div 7"
  define r where "r = (f + 6) mod 7"
  have f: "f = 7 * q + r - 6"
    unfolding q_def r_def by simp
  have r: "0 \<le> r" "r < 7"
    unfolding r_def by simp_all
  have w: "w = (if r > 3 then 7 * q + 1 else 7 * q - 6)"
    unfolding w_def r_def [symmetric] using f by simp
  show "f - 3 \<le> w" "w \<le> f + 3"
    using r unfolding w f by simp_all
  have "(7 * q - 6) mod 7 = (7 * (q - 1) + 1) mod 7"
    by (simp add: algebra_simps)
  then have "(7 * q - 6) mod 7 = 1"
    by (simp only: mod_mult_self4) simp
  then show "w mod 7 = 1"
    unfolding w by simp
qed

lemma isoweek1monday_bounds:
  "days_before_year y - 2 \<le> isoweek1monday y" "isoweek1monday y \<le> days_before_year y + 4"
  using week1monday_arith(1,2) [of "days_before_year y + 1"]
  by (simp_all add: isoweek1monday_def first_day_of_year Let_def)

lemma isoweek1monday_monday: "isoweek1monday y mod 7 = 1"
  using week1monday_arith(3) [of "days_before_year y + 1"]
  by (simp add: isoweek1monday_def first_day_of_year Let_def)

lemma year_of_eq:
  "year_of d =
     (let n = d - 1; a = n div 146097; r1 = n mod 146097;
          b = r1 div 36524; r2 = r1 mod 36524;
          c = r2 div 1461; r3 = r2 mod 1461; e = r3 div 365
      in if e = 4 \<or> b = 4 then 400 * a + 100 * b + 4 * c + e
         else 400 * a + 100 * b + 4 * c + e + 1)"
proof -
  define n where "n = d - 1"
  define a where "a = n div 146097"
  define r1 where "r1 = n mod 146097"
  define b where "b = r1 div 36524"
  define r2 where "r2 = r1 mod 36524"
  define c where "c = r2 div 1461"
  define r3 where "r3 = r2 mod 1461"
  define e where "e = r3 div 365"
  define r4 where "r4 = r3 mod 365"
  note defs = n_def a_def r1_def b_def r2_def c_def r3_def e_def r4_def
  have "fst (ord2ymd d) = (if e = 4 \<or> b = 4 then 400 * a + 100 * b + 4 * c + e
         else 400 * a + 100 * b + 4 * c + e + 1)"
    unfolding ord2ymd_def Let_def defs [symmetric]
    by (simp split: if_splits)
  then show ?thesis
    unfolding year_of_def Let_def defs .
qed

lemma days_before_year_decomp:
  fixes a b c e :: int
  assumes "0 \<le> b" "b < 4" "0 \<le> c" "c < 25" "0 \<le> e" "e < 4"
  shows "days_before_year (400 * a + 100 * b + 4 * c + e + 1)
           = 146097 * a + 36524 * b + 1461 * c + 365 * e"
proof -
  have "400 * a + 100 * b + 4 * c + e = 4 * (100 * a + 25 * b + c) + e"
    by simp
  then have d4: "(400 * a + 100 * b + 4 * c + e) div 4 = 100 * a + 25 * b + c"
    using assms by (intro int_div_pos_eq [where r = e]) simp_all
  have "400 * a + 100 * b + 4 * c + e = 100 * (4 * a + b) + (4 * c + e)"
    by simp
  then have d100: "(400 * a + 100 * b + 4 * c + e) div 100 = 4 * a + b"
    using assms by (intro int_div_pos_eq [where r = "4 * c + e"]) simp_all
  have "400 * a + 100 * b + 4 * c + e = 400 * a + (100 * b + 4 * c + e)"
    by simp
  then have d400: "(400 * a + 100 * b + 4 * c + e) div 400 = a"
    using assms by (intro int_div_pos_eq [where r = "100 * b + 4 * c + e"]) simp_all
  show ?thesis
    by (simp add: days_before_year_def Let_def d4 d100 d400)
qed

lemma year_of_bounds:
  "days_before_year (year_of d) < d" "d \<le> days_before_year (year_of d + 1)"
proof -
  define n where "n = d - 1"
  define a where "a = n div 146097"
  define r1 where "r1 = n mod 146097"
  define b where "b = r1 div 36524"
  define r2 where "r2 = r1 mod 36524"
  define c where "c = r2 div 1461"
  define r3 where "r3 = r2 mod 1461"
  define e where "e = r3 div 365"
  define r4 where "r4 = r3 mod 365"
  have n: "n = 146097 * a + r1" and r1: "0 \<le> r1" "r1 < 146097"
    unfolding a_def r1_def by simp_all
  have r1': "r1 = 36524 * b + r2" and r2: "0 \<le> r2" "r2 < 36524"
    unfolding b_def r2_def by simp_all
  have r2': "r2 = 1461 * c + r3" and r3: "0 \<le> r3" "r3 < 1461"
    unfolding c_def r3_def by simp_all
  have r3': "r3 = 365 * e + r4" and r4: "0 \<le> r4" "r4 < 365"
    unfolding e_def r4_def by simp_all
  have b: "0 \<le> b" "b \<le> 4" using r1 r2 r1' by linarith+
  have c: "0 \<le> c" "c \<le> 24" using r2 r3 r2' by linarith+
  have e: "0 \<le> e" "e \<le> 4" using r3 r4 r3' by linarith+
  have y: "year_of d = (if e = 4 \<or> b = 4 then 400 * a + 100 * b + 4 * c + e
         else 400 * a + 100 * b + 4 * c + e + 1)"
    unfolding year_of_eq Let_def e_def r3_def c_def r2_def b_def r1_def a_def n_def ..
  have d: "d = 146097 * a + 36524 * b + 1461 * c + 365 * e + r4 + 1"
    using n r1' r2' r3' n_def by linarith
  consider (normal) "e < 4" "b < 4" | (e4) "e = 4" "b < 4" | (b4) "b = 4"
    using b e by linarith
  then have "days_before_year (year_of d) < d \<and> d \<le> days_before_year (year_of d + 1)"
  proof cases
    case normal
    then have yy: "year_of d = 400 * a + 100 * b + 4 * c + e + 1"
      using y by simp
    have lo: "days_before_year (year_of d) = 146097 * a + 36524 * b + 1461 * c + 365 * e"
      unfolding yy using normal b c e by (intro days_before_year_decomp) simp_all
    have "days_before_year (year_of d + 1) \<ge> days_before_year (year_of d) + 365"
      by (simp add: days_before_year_step)
    with lo d r4 show ?thesis by linarith
  next
    case e4
    then have c23: "c \<le> 23" using r2 r2' r3' r4 c by linarith
    have r40: "r4 = 0" using e4 r3 r3' r4 by linarith
    have yy: "year_of d = 400 * a + 100 * b + 4 * c + 3 + 1"
      using y e4 by simp
    have lo: "days_before_year (year_of d) = 146097 * a + 36524 * b + 1461 * c + 365 * 3"
      unfolding yy using e4 b c by (intro days_before_year_decomp) simp_all
    have "year_of d + 1 = 400 * a + 100 * b + 4 * (c + 1) + 0 + 1"
      using yy by simp
    then have hi: "days_before_year (year_of d + 1)
        = 146097 * a + 36524 * b + 1461 * (c + 1) + 365 * 0"
      using e4 b c c23 by (simp only:) (intro days_before_year_decomp, simp_all)
    from lo hi d r40 e4 show ?thesis by simp
  next
    case b4
    then have r20: "r2 = 0" using r1 r1' r2 by linarith
    then have z: "c = 0" "r3 = 0" "e = 0" "r4 = 0"
      using r2' r3 c r3' r4 e by linarith+
    have yy: "year_of d = 400 * a + 100 * 3 + 4 * 24 + 3 + 1"
      using y b4 z by simp
    have lo: "days_before_year (year_of d) = 146097 * a + 36524 * 3 + 1461 * 24 + 365 * 3"
      unfolding yy by (intro days_before_year_decomp) simp_all
    have "year_of d + 1 = 400 * (a + 1) + 100 * 0 + 4 * 0 + 0 + 1"
      using yy by simp
    then have hi: "days_before_year (year_of d + 1)
        = 146097 * (a + 1) + 36524 * 0 + 1461 * 0 + 365 * 0"
      by (simp only:) (intro days_before_year_decomp, simp_all)
    from lo hi d z b4 show ?thesis by simp
  qed
  then show "days_before_year (year_of d) < d" "d \<le> days_before_year (year_of d + 1)"
    by simp_all
qed

lemma days_before_year_next:
  "days_before_year y + 365 \<le> days_before_year (y + 1)"
  "days_before_year (y + 1) \<le> days_before_year y + 366"
  by (simp_all add: days_before_year_step)

lemma monday_gap:
  fixes u v :: int
  assumes "u mod 7 = 1" "v mod 7 = 1" "u + 359 \<le> v"
  shows "u + 364 \<le> v"
proof -
  have "(v - u) mod 7 = 0"
    using assms(1,2) by (metis cancel_comm_monoid_add_class.diff_cancel mod_0 mod_diff_eq)
  then obtain k where k: "v - u = 7 * k"
    by (auto simp: mod_eq_0_iff_dvd)
  with assms(3) have "52 \<le> k" by linarith
  with k show ?thesis by linarith
qed

lemma isoweek1monday_step: "isoweek1monday y + 364 \<le> isoweek1monday (y + 1)"
proof (rule monday_gap)
  show "isoweek1monday y mod 7 = 1" "isoweek1monday (y + 1) mod 7 = 1"
    by (rule isoweek1monday_monday)+
  show "isoweek1monday y + 359 \<le> isoweek1monday (y + 1)"
    using isoweek1monday_bounds [of y] isoweek1monday_bounds [of "y + 1"]
      days_before_year_next [of y] by linarith
qed

lemma isoweek1monday_mono: "y \<le> y' \<Longrightarrow> isoweek1monday y \<le> isoweek1monday y'"
proof (induction y' rule: int_ge_induct)
  case base
  show ?case by simp
next
  case (step i)
  then show ?case
    using isoweek1monday_step [of i] by linarith
qed

lemma iso_year_unique:
  assumes "isoweek1monday y \<le> d" "d < isoweek1monday (y + 1)"
    and "isoweek1monday y' \<le> d" "d < isoweek1monday (y' + 1)"
  shows "y = y'"
proof (rule ccontr)
  assume "y \<noteq> y'"
  then consider "y + 1 \<le> y'" | "y' + 1 \<le> y" by linarith
  then show False
  proof cases
    case 1
    from isoweek1monday_mono [OF this] assms show False by linarith
  next
    case 2
    from isoweek1monday_mono [OF this] assms show False by linarith
  qed
qed

lemma mod7_shift:
  fixes d u v :: int
  assumes "u mod 7 = 1" "v mod 7 = 1"
  shows "(d - u) mod 7 = (d - v) mod 7"
  by (metis assms mod_diff_right_eq)

lemma isocalendar_char:
  assumes "isocalendar d = (Y, W, D)"
  shows "isoweek1monday Y \<le> d" "d < isoweek1monday (Y + 1)"
    "W = (d - isoweek1monday Y) div 7 + 1" "D = (d - isoweek1monday Y) mod 7 + 1"
proof -
  define y where "y = year_of d"
  have yb: "days_before_year y < d" "d \<le> days_before_year (y + 1)"
    unfolding y_def by (rule year_of_bounds)+
  consider (prev) "(d - isoweek1monday y) div 7 < 0"
    | (succ) "\<not> (d - isoweek1monday y) div 7 < 0" "(d - isoweek1monday y) div 7 \<ge> 52"
        "d \<ge> isoweek1monday (y + 1)"
    | (same) "\<not> (d - isoweek1monday y) div 7 < 0"
        "\<not> ((d - isoweek1monday y) div 7 \<ge> 52 \<and> d \<ge> isoweek1monday (y + 1))"
    by blast
  then have "isoweek1monday Y \<le> d \<and> d < isoweek1monday (Y + 1)
    \<and> W = (d - isoweek1monday Y) div 7 + 1 \<and> D = (d - isoweek1monday Y) mod 7 + 1"
  proof cases
    case prev
    then have res: "Y = y - 1" "W = (d - isoweek1monday (y - 1)) div 7 + 1"
      "D = (d - isoweek1monday (y - 1)) mod 7 + 1"
      using assms unfolding isocalendar_def Let_def y_def [symmetric] by auto
    from prev have lt: "d < isoweek1monday y" by linarith
    have "isoweek1monday (y - 1) \<le> d"
      using isoweek1monday_bounds [of "y - 1"] days_before_year_next [of "y - 1"] yb by simp
    with lt res show ?thesis by simp
  next
    case succ
    then have res: "Y = y + 1" "W = 1" "D = (d - isoweek1monday y) mod 7 + 1"
      using assms unfolding isocalendar_def Let_def y_def [symmetric] by auto
    have lo: "isoweek1monday (y + 1) \<le> d" using succ by simp
    have hi: "d < isoweek1monday (y + 1 + 1)"
      using isoweek1monday_bounds [of "y + 1 + 1"] days_before_year_next [of "y + 1"] yb
      by linarith
    have "d - isoweek1monday (y + 1) < 7"
      using isoweek1monday_bounds [of "y + 1"] yb by linarith
    with lo have "(d - isoweek1monday (y + 1)) div 7 = 0" by simp
    moreover have "(d - isoweek1monday y) mod 7 = (d - isoweek1monday (y + 1)) mod 7"
      by (rule mod7_shift) (rule isoweek1monday_monday)+
    ultimately show ?thesis
      using res lo hi by simp
  next
    case same
    then have res: "Y = y" "W = (d - isoweek1monday y) div 7 + 1"
      "D = (d - isoweek1monday y) mod 7 + 1"
      using assms unfolding isocalendar_def Let_def y_def [symmetric] by auto
    from same(1) have lo: "isoweek1monday y \<le> d" by linarith
    have hi: "d < isoweek1monday (y + 1)"
    proof (cases "(d - isoweek1monday y) div 7 \<ge> 52")
      case True
      with same(2) show ?thesis by simp
    next
      case False
      then have "d - isoweek1monday y < 364" by linarith
      with isoweek1monday_step [of y] show ?thesis by linarith
    qed
    with lo res show ?thesis by simp
  qed
  then show "isoweek1monday Y \<le> d" "d < isoweek1monday (Y + 1)"
    "W = (d - isoweek1monday Y) div 7 + 1" "D = (d - isoweek1monday Y) mod 7 + 1"
    by simp_all
qed

lemma iso_week_period_char:
  assumes "iso_week_period d = (Y, W, s, e)"
  shows "s = isoweek1monday Y + 7 * (W - 1)" "e = s + 6" "s = d - (d - 1) mod 7"
    "isoweek1monday Y \<le> s" "d < isoweek1monday (Y + 1)" "1 \<le> W"
proof -
  obtain D where iso: "isocalendar d = (Y, W, D)"
    and s: "s = d - (D - 1)" and e: "e = s + 6"
    using assms by (auto simp: iso_week_period_def add_days_def Let_def split: prod.splits)
  note ch = isocalendar_char [OF iso]
  have W: "W - 1 = (d - isoweek1monday Y) div 7" and D: "D - 1 = (d - isoweek1monday Y) mod 7"
    using ch(3,4) by simp_all
  have "d - isoweek1monday Y = 7 * (W - 1) + (D - 1)"
    unfolding W D by simp
  then show 1: "s = isoweek1monday Y + 7 * (W - 1)"
    using s by linarith
  show "e = s + 6" by (rule e)
  have "(d - isoweek1monday Y) mod 7 = (d - isoweek1monday Y mod 7) mod 7"
    by (simp add: mod_diff_right_eq)
  then have "(d - isoweek1monday Y) mod 7 = (d - 1) mod 7"
    by (simp only: isoweek1monday_monday)
  then show "s = d - (d - 1) mod 7"
    using s D by simp
  have "0 \<le> (d - isoweek1monday Y) div 7"
    using ch(1) by (simp add: pos_imp_zdiv_nonneg_iff)
  then show "1 \<le> W" using W by linarith
  then show "isoweek1monday Y \<le> s" unfolding 1 by simp
  show "d < isoweek1monday (Y + 1)" by (rule ch(2))
qed


lemma iso_week_period_of_start:
  assumes "iso_week_period d = (Y, W, s, e)"
  shows "iso_week_period s = (Y, W, s, e)"
proof -
  note c = iso_week_period_char [OF assms]
  obtain Y' W' s' e' where p: "iso_week_period s = (Y', W', s', e')"
    by (cases "iso_week_period s") auto
  note c' = iso_week_period_char [OF p]
  have sd: "s \<le> d"
    using c(3) by simp
  have "s mod 7 = 1"
    unfolding c(1) using isoweek1monday_monday [of Y] by (simp add: mod_add_eq [symmetric])
  then have "(s - 1) mod 7 = 0"
    by (metis cancel_comm_monoid_add_class.diff_cancel mod_0 mod_diff_left_eq)
  then have s': "s' = s"
    using c'(3) by simp
  have "isoweek1monday Y' \<le> s" using c'(4) s' by simp
  moreover have "s < isoweek1monday (Y' + 1)" using c'(5) .
  moreover have "isoweek1monday Y \<le> s" using c(4) .
  moreover have "s < isoweek1monday (Y + 1)" using c(5) sd by linarith
  ultimately have Y: "Y' = Y" by (rule iso_year_unique)
  have "W' = W"
    using c(1) c'(1) s' Y by simp
  with Y s' c(2) c'(2) p show ?thesis by simp
qed

lemma iso_week_period_same_start:
  assumes "iso_week_period d = (Y, W, s, e)" "iso_week_period d' = (Y', W', s, e')"
  shows "(Y', W', e') = (Y, W, e)"
  using iso_week_period_of_start [OF assms(1)] iso_week_period_of_start [OF assms(2)] by simp

lemma iso_week_period_key_inj:
  assumes "iso_week_period d = (Y, W, s, e)" "iso_week_period d' = (Y, W, s', e')"
  shows "s' = s \<and> e' = e"
  using iso_week_period_char(1,2) [OF assms(1)] iso_week_period_char(1,2) [OF assms(2)] by simp

lemma week_start_mono:
  fixes d d' :: int
  assumes "d \<le> d'"
  shows "d - (d - 1) mod 7 \<le> d' - (d' - 1) mod 7"
proof -
  have "(d - 1) div 7 \<le> (d' - 1) div 7"
    using assms by (intro zdiv_mono1) simp_all
  moreover have "d - (d - 1) mod 7 = 7 * ((d - 1) div 7) + 1" for d :: int
    by (simp add: minus_mod_eq_mult_div [symmetric] algebra_simps)
  ultimately show ?thesis by simp
qed

lemma iso_week_convex:
  assumes "d1 \<le> d2" "d2 \<le> d3"
    and "iso_week_period d1 = (Y, W, s, e)" "iso_week_period d3 = (Y, W, s3, e3)"
  shows "iso_week_period d2 = (Y, W, s, e)"
proof -
  obtain Y2 W2 s2 e2 where p: "iso_week_period d2 = (Y2, W2, s2, e2)"
    by (cases "iso_week_period d2") auto
  have s3: "s3 = s"
    using iso_week_period_key_inj [OF assms(3,4)] by simp
  have "s \<le> s2" "s2 \<le> s3"
    using week_start_mono [OF assms(1)] week_start_mono [OF assms(2)]
      iso_week_period_char(3) [OF assms(3)] iso_week_period_char(3) [OF assms(4)]
      iso_week_period_char(3) [OF p] by simp_all
  with s3 have "s2 = s" by simp
  with p iso_week_period_same_start [OF assms(3), of d2 Y2 W2 e2] show ?thesis by simp
qed

section \<open>Properties of the period registry\<close>

lemma next_id_bound: "fold max xs (a::int) \<ge> a \<and> (\<forall>x \<in> set xs. x \<le> fold max xs a)"
proof (induction xs arbitrary: a)
  case Nil
  show ?case by simp
next
  case (Cons x xs)
  from Cons [of "max x a"] show ?case by auto
qed

lemma next_id_fresh: "r \<in> set rows \<Longrightarrow> wp_id r < next_id rows"
  using next_id_bound [of 0 "map wp_id rows"] by (auto simp: next_id_def)

lemma select_period_None:
  "select_period rows y w = None \<longleftrightarrow> \<not> (\<exists>r \<in> set rows. wp_year r = y \<and> wp_week_no r = w)"
  by (auto simp: select_period_def find_None_iff)

lemma select_period_Some:
  "select_period rows y w = Some p \<Longrightarrow> p \<in> set rows \<and> wp_year p = y \<and> wp_week_no p = w"
  by (auto simp: select_period_def find_Some_iff)

lemma select_period_update_month:
  "select_period (update_month rows i m) y w =
     map_option (\<lambda>r. if wp_id r = i then r\<lparr>wp_month := m\<rparr> else r) (select_period rows y w)"
  by (induction rows) (auto simp: select_period_def update_month_def)

lemma select_period_append:
  "select_period rows y w = None \<Longrightarrow> wp_year p = y \<Longrightarrow> wp_week_no p = w \<Longrightarrow>
     select_period (rows @ [p]) y w = Some p"
  by (induction rows) (auto simp: select_period_def split: if_splits)

lemma ensure_period_found:
  assumes "iso_week_period d = (y, w, s, e)" "select_period rows y w = Some p"
  shows "ensure_period rows d =
     Inr (if wp_month p \<noteq> month_of (add_days s 3)
          then (update_month rows (wp_id p) (month_of (add_days s 3)),
                p\<lparr>wp_month := month_of (add_days s 3)\<rparr>)
          else (rows, p))"
  using assms by (simp add: ensure_period_def ensure_period_among_def Let_def)

lemma ensure_period_new:
  assumes "iso_week_period d = (y, w, s, e)" "select_period rows y w = None"
  shows "ensure_period rows d =
     Inr (rows @ [\<lparr>wp_id = next_id rows, wp_year = y, wp_month = month_of (add_days s 3),
                    wp_week_no = w, wp_start_date = s, wp_end_date = e\<rparr>],
          \<lparr>wp_id = next_id rows, wp_year = y, wp_month = month_of (add_days s 3),
            wp_week_no = w, wp_start_date = s, wp_end_date = e\<rparr>)"
  using assms select_period_None [of rows y w]
  by (simp add: ensure_period_def ensure_period_among_def insert_period_def Let_def)

lemma ensure_period_total: "\<exists>rows' p. ensure_period rows d = Inr (rows', p)"
proof -
  obtain y w s e where p: "iso_week_period d = (y, w, s, e)"
    by (cases "iso_week_period d") auto
  show ?thesis
  proof (cases "select_period rows y w")
    case None
    from ensure_period_new [OF p None] show ?thesis by blast
  next
    case (Some a)
    from ensure_period_found [OF p Some] show ?thesis by (auto split: if_splits)
  qed
qed

lemma ensure_period_result:
  assumes "ensure_period rows d = Inr (rows', p)" "iso_week_period d = (y, w, s, e)"
  shows "wp_year p = y" "wp_week_no p = w" "wp_month p = month_of (add_days s 3)"
    "select_period rows' y w = Some p" "p \<in> set rows'"
proof -
  have "wp_year p = y \<and> wp_week_no p = w \<and> wp_month p = month_of (add_days s 3)
    \<and> select_period rows' y w = Some p"
  proof (cases "select_period rows y w")
    case None
    from ensure_period_new [OF assms(2) None] assms(1) select_period_append [OF None]
    show ?thesis by auto
  next
    case (Some a)
    from ensure_period_found [OF assms(2) Some] assms(1) select_period_Some [OF Some]
      select_period_update_month [of rows "wp_id a" "month_of (add_days s 3)" y w] Some
    show ?thesis by (auto split: if_splits)
  qed
  then show "wp_year p = y" "wp_week_no p = w" "wp_month p = month_of (add_days s 3)"
    "select_period rows' y w = Some p" by simp_all
  then show "p \<in> set rows'"
    using select_period_Some by blast
qed

lemma ensure_period_again:
  assumes "ensure_period rows d = Inr (rows', p)"
  shows "ensure_period rows' d = Inr (rows', p)"
proof -
  obtain y w s e where q: "iso_week_period d = (y, w, s, e)"
    by (cases "iso_week_period d") auto
  note r = ensure_period_result [OF assms q]
  from ensure_period_found [OF q r(4)] r(3) show ?thesis by simp
qed


lemma update_month_keys:
  "map wp_id (update_month rows i m) = map wp_id rows"
  "map period_key (update_month rows i m) = map period_key rows"
  by (simp_all add: update_month_def period_key_def)

lemma distinct_key_once:
  "distinct (map f xs) \<Longrightarrow> x \<in> set xs \<Longrightarrow> length (filter (\<lambda>r. f r = f x) xs) = 1"
proof (induction xs)
  case Nil
  then show ?case by simp
next
  case (Cons a xs)
  show ?case
  proof (cases "f a = f x")
    case True
    then have "filter (\<lambda>r. f r = f x) xs = []"
      using Cons.prems(1) by (auto simp: filter_empty_conv image_iff)
    with True show ?thesis by simp
  next
    case False
    with Cons show ?thesis by auto
  qed
qed

lemma ensure_period_table_ok:
  assumes "ensure_period rows d = Inr (rows', p)" "table_ok rows"
  shows "table_ok rows'" "length (filter (\<lambda>r. period_key r = period_key p) rows') = 1"
proof -
  obtain y w s e where q: "iso_week_period d = (y, w, s, e)"
    by (cases "iso_week_period d") auto
  show ok: "table_ok rows'"
  proof (cases "select_period rows y w")
    case None
    let ?p = "\<lparr>wp_id = next_id rows, wp_year = y, wp_month = month_of (add_days s 3),
            wp_week_no = w, wp_start_date = s, wp_end_date = e\<rparr>"
    have rows': "rows' = rows @ [?p]"
      using ensure_period_new [OF q None] assms(1) by simp
    have "wp_id ?p \<notin> wp_id ` set rows"
    proof
      assume "wp_id ?p \<in> wp_id ` set rows"
      then obtain r where "r \<in> set rows" "wp_id r = next_id rows" by auto
      with next_id_fresh [of r rows] show False by simp
    qed
    moreover have "period_key ?p \<notin> period_key ` set rows"
      using None by (auto simp: select_period_None period_key_def)
    ultimately show ?thesis
      using assms(2) unfolding rows' table_ok_def by simp
  next
    case (Some a)
    from ensure_period_found [OF q Some] assms(1)
    have "rows' = rows \<or> rows' = update_month rows (wp_id a) (month_of (add_days s 3))"
      by (auto split: if_splits)
    then show ?thesis
      using assms(2) by (auto simp: table_ok_def update_month_keys)
  qed
  have "p \<in> set rows'"
    using ensure_period_result(5) [OF assms(1) q] .
  moreover have "distinct (map period_key rows')"
    using ok by (simp add: table_ok_def)
  ultimately show "length (filter (\<lambda>r. period_key r = period_key p) rows') = 1"
    by (intro distinct_key_once)
qed



lemma iso_2024_02_01: "iso_week_period 738917 = (2024, 5, 738914, 738920)"
  by code_simp


lemma month_2024_02_01: "month_of 738917 = 2"
  by code_simp


lemma ensure_period_empty_2024_02_01:
  "ensure_period [] 738917 = Inr ([week_2024_05], week_2024_05)"
  using ensure_period_new [OF iso_2024_02_01, of "[]"]
  by (simp add: select_period_def next_id_def add_days_def month_2024_02_01 week_2024_05_def)

lemma table_ok_week_2024_05: "table_ok [week_2024_05]"
  by (simp add: table_ok_def)

text \<open>
  Claim C3.  For every date and every state of the period table, \<^verbatim>\<open>ensure_period\<close>
  returns a period, and a second call returns the same period (the same id and fields)
  and leaves the table as the first call left it, so it adds no row; the period has the
  ISO year and week of the date.  On a table that satisfies its constraints (distinct
  ids, one row per year and week) the constraints still hold afterwards and exactly one
  row carries the period's year and week.
\<close>

theorem ensure_period_idempotent:
  "\<exists>rows' p. ensure_period rows d = Inr (rows', p)
      \<and> ensure_period rows' d = Inr (rows', p)
      \<and> (wp_year p, wp_week_no p) = (fst (iso_week_period d), fst (snd (iso_week_period d)))
      \<and> (table_ok rows \<longrightarrow>
            table_ok rows' \<and> length (filter (\<lambda>r. period_key r = period_key p) rows') = 1)"
proof -
  obtain rows' p where r: "ensure_period rows d = Inr (rows', p)"
    using ensure_period_total by blast
  obtain y w s e where q: "iso_week_period d = (y, w, s, e)"
    by (cases "iso_week_period d") auto
  have "ensure_period rows' d = Inr (rows', p)"
    using r by (rule ensure_period_again)
  moreover have "(wp_year p, wp_week_no p) = (fst (iso_week_period d), fst (snd (iso_week_period d)))"
    using ensure_period_result(1,2) [OF r q] q by simp
  moreover have "table_ok rows \<longrightarrow>
      table_ok rows' \<and> length (filter (\<lambda>r. period_key r = period_key p) rows') = 1"
    using ensure_period_table_ok [OF r] by blast
  ultimately show ?thesis
    using r by blast
qed

text \<open>An empty table and Thursday 2024-02-01; the second call changes nothing.\<close>

theorem ensure_period_idempotent_witness:
  "ensure_period [] 738917 = Inr ([week_2024_05], week_2024_05)
   \<and> ensure_period [week_2024_05] 738917 = Inr ([week_2024_05], week_2024_05)
   \<and> table_ok [week_2024_05]
   \<and> length (filter (\<lambda>r. period_key r = period_key week_2024_05) [week_2024_05]) = 1"
  using ensure_period_idempotent [of "[]" 738917]
  by (simp add: ensure_period_empty_2024_02_01 table_ok_def)



text \<open>
  Claim C6 says that a uniqueness violation of the insert is recovered inside
  \<^verbatim>\<open>ensure_period\<close> by a second query.  When another session commits the row of the
  same week between this call's query and its insert, the result of the call is the
  integrity error.
\<close>

theorem ensure_period_race_counterexample:
  "ensure_period_among (\<lambda>t. t @ [week_2024_05]) [] 738917 = Inl IntegrityError"
  by (simp add: ensure_period_among_def iso_2024_02_01 select_period_def insert_period_def
      week_2024_05_def)

text \<open>
  Claim C6, amended.  If the query of \<^verbatim>\<open>ensure_period\<close> finds no row and the row of
  that year and week is in the table when the insert commits, the call ends with the
  integrity error, which reaches the caller; a call made afterwards finds the row and
  returns it, with the month of the week's Thursday.
\<close>

theorem ensure_period_race_surfaces:
  assumes "iso_week_period d = (y, w, s, e)" "select_period rows y w = None"
    "select_period (others rows) y w = Some r"
  shows "ensure_period_among others rows d = Inl IntegrityError
    \<and> (\<exists>rows'. ensure_period (others rows) d = Inr (rows', r\<lparr>wp_month := month_of (add_days s 3)\<rparr>))"
proof -
  have "\<exists>r \<in> set (others rows). wp_year r = y \<and> wp_week_no r = w"
    using select_period_Some [OF assms(3)] by blast
  then have "ensure_period_among others rows d = Inl IntegrityError"
    using assms(1,2) by (simp add: ensure_period_among_def insert_period_def)
  moreover have "\<exists>rows'. ensure_period (others rows) d
      = Inr (rows', r\<lparr>wp_month := month_of (add_days s 3)\<rparr>)"
    using ensure_period_found [OF assms(1,3)] by (cases "wp_month r = month_of (add_days s 3)") auto
  ultimately show ?thesis by blast
qed

theorem ensure_period_race_surfaces_witness:
  "ensure_period_among (\<lambda>t. t @ [stale_2024_05]) [] 738917 = Inl IntegrityError
   \<and> (\<exists>rows'. ensure_period ([] @ [stale_2024_05]) 738917 = Inr (rows', week_2024_05))"
proof -
  have sel: "select_period ([] @ [stale_2024_05]) 2024 5 = Some stale_2024_05"
    by (simp add: select_period_def stale_2024_05_def week_2024_05_def)
  have none: "select_period [] 2024 5 = None"
    by (simp add: select_period_def)
  from ensure_period_race_surfaces [OF iso_2024_02_01 none, of "\<lambda>t. t @ [stale_2024_05]", OF sel]
  show ?thesis
    by (simp add: add_days_def month_2024_02_01 stale_2024_05_def week_2024_05_def)
qed

section \<open>Properties of the scheduler\<close>

lemma of_char_digit_char: "k < 10 \<Longrightarrow> (of_char (digit_char k) :: nat) = 48 + k"
  by (simp add: digit_char_def)

lemma digits_nat_snoc: "digits_nat (s @ [c]) = 10 * digits_nat s + (of_char c - 48)"
  by (simp add: digits_nat_def)

lemma digits_nat_str_nat: "digits_nat (str_nat n) = n"
proof (induction n rule: str_nat.induct)
  case (1 n)
  show ?case
  proof (cases "n < 10")
    case True
    then show ?thesis
      by (subst str_nat.simps) (simp add: digits_nat_def of_char_digit_char)
  next
    case False
    have "n mod 10 < 10" by simp
    with False "1" show ?thesis
      by (subst str_nat.simps) (simp add: digits_nat_snoc of_char_digit_char)
  qed
qed

lemma str_nat_chars: "c \<in> set (str_nat n) \<Longrightarrow> is_digit c"
proof (induction n rule: str_nat.induct)
  case (1 n)
  have dig: "is_digit (digit_char k)" if "k < 10" for k
    using that by (simp add: is_digit_def of_char_digit_char)
  show ?case
  proof (cases "n < 10")
    case True
    with "1.prems" dig [of n] show ?thesis
      by (subst (asm) str_nat.simps) simp
  next
    case False
    have "n mod 10 < 10" by simp
    with False "1" dig [of "n mod 10"] show ?thesis
      by (subst (asm) str_nat.simps) auto
  qed
qed

lemma str_nat_nonempty: "str_nat n \<noteq> []"
  by (subst str_nat.simps) simp

lemma is_digit_not_sign: "is_digit c \<Longrightarrow> c \<noteq> CHR ''-'' \<and> c \<noteq> CHR ''W''"
  by (auto simp: is_digit_def)

lemma str_int_inverse:
  "(if hd (str_int i) = CHR ''-'' then - int (digits_nat (tl (str_int i)))
    else int (digits_nat (str_int i))) = i"
proof (cases "i < 0")
  case True
  then show ?thesis by (simp add: str_int_def digits_nat_str_nat)
next
  case False
  have "hd (str_nat (nat i)) \<in> set (str_nat (nat i))"
    using str_nat_nonempty by simp
  then have "hd (str_nat (nat i)) \<noteq> CHR ''-''"
    using str_nat_chars is_digit_not_sign by blast
  with False show ?thesis by (simp add: str_int_def digits_nat_str_nat)
qed

lemma str_int_inj: "str_int i = str_int j \<Longrightarrow> i = j"
  by (metis str_int_inverse)

lemma str_int_no_W: "CHR ''W'' \<notin> set (str_int i)"
  using str_nat_chars is_digit_not_sign by (auto simp: str_int_def)

lemma key_str_inj:
  assumes "str_int y @ ''-W'' @ str_int w = str_int y' @ ''-W'' @ str_int w'"
  shows "y = y' \<and> w = w'"
proof -
  have tw: "takeWhile (\<lambda>c. c \<noteq> CHR ''W'') (str_int a @ ''-W'' @ str_int b) = str_int a @ ''-''"
    for a b
  proof -
    have "takeWhile (\<lambda>c. c \<noteq> CHR ''W'') (str_int a @ ''-W'' @ str_int b)
        = str_int a @ takeWhile (\<lambda>c. c \<noteq> CHR ''W'') (''-W'' @ str_int b)"
      using str_int_no_W [of a] by (intro takeWhile_append2) auto
    then show ?thesis by simp
  qed
  from assms have "str_int y @ ''-'' = str_int y' @ ''-''"
    using tw [of y w] tw [of y' w'] by simp
  then have y: "y = y'"
    using str_int_inj by simp
  with assms have "str_int w = str_int w'" by simp
  with y show ?thesis using str_int_inj by simp
qed

lemma date_key_convex:
  assumes "d1 \<le> d2" "d2 \<le> d3" "date_key d1 = date_key d3"
  shows "date_key d2 = date_key d1"
proof -
  obtain Y W s e where p1: "iso_week_period d1 = (Y, W, s, e)"
    by (cases "iso_week_period d1") auto
  obtain Y3 W3 s3 e3 where p3: "iso_week_period d3 = (Y3, W3, s3, e3)"
    by (cases "iso_week_period d3") auto
  have "Y = Y3 \<and> W = W3"
    using assms(3) p1 p3 by (intro key_str_inj) (simp add: date_key_def)
  with p3 have "iso_week_period d3 = (Y, W, s3, e3)" by simp
  from iso_week_convex [OF assms(1,2) p1 this] p1 show ?thesis
    by (simp add: date_key_def)
qed

lemma send_for_user_fields:
  "st_cfgs (send_for_user env p key u cfg st)
     = save_user_email_config u (stamp env key cfg) (st_cfgs st)"
  "st_sent (send_for_user env p key u cfg st)
     = st_sent st @ (if has_plan env p u then [(u, key)] else [])"
  "st_periods (send_for_user env p key u cfg st) = st_periods st"
  by (simp_all add: send_for_user_def stamp_def has_plan_def Let_def split: option.splits)

lemma users_loop_sent:
  "st_sent (users_loop env p key snap st) = st_sent st @ tick_sends env p key snap"
proof (induction snap arbitrary: st)
  case Nil
  show ?case by (simp add: tick_sends_def)
next
  case (Cons uc snap)
  obtain u cfg where uc: "uc = (u, cfg)" by (cases uc)
  show ?case
    unfolding uc using Cons [of "send_for_user env p key u cfg st"] Cons [of st]
    by (simp add: send_for_user_fields tick_sends_def)
qed

lemma users_loop_periods:
  "st_periods (users_loop env p key snap st) = st_periods st"
  by (induction snap arbitrary: st) (auto simp: send_for_user_fields)

lemma users_loop_keys:
  "fst ` set snap \<subseteq> fst ` set (st_cfgs st) \<Longrightarrow>
     map fst (st_cfgs (users_loop env p key snap st)) = map fst (st_cfgs st)"
proof (induction snap arbitrary: st)
  case Nil
  show ?case by simp
next
  case (Cons uc snap)
  obtain u cfg where uc: "uc = (u, cfg)" by (cases uc)
  have u: "u \<in> fst ` set (st_cfgs st)"
    using Cons.prems uc by simp
  have keep: "map fst (st_cfgs (send_for_user env p key u cfg st)) = map fst (st_cfgs st)"
    using u by (simp add: send_for_user_fields save_user_email_config_def update_keys)
  have sub: "fst ` set snap \<subseteq> fst ` set (st_cfgs (send_for_user env p key u cfg st))"
    using Cons.prems keep by (metis set_map set_subset_Cons subset_trans image_mono)
  show ?case
    unfolding uc using Cons.IH [OF sub] Cons.IH [of st] Cons.prems keep
    by (simp add: uc)
qed

lemma users_loop_map_of:
  "distinct (map fst snap) \<Longrightarrow>
     map_of (st_cfgs (users_loop env p key snap st)) u =
       (case map_of snap u of
          None \<Rightarrow> map_of (st_cfgs st) u
        | Some cfg \<Rightarrow> if due (env_now env) key cfg then Some (stamp env key cfg)
                      else map_of (st_cfgs st) u)"
proof (induction snap arbitrary: st)
  case Nil
  show ?case by simp
next
  case (Cons uc snap)
  obtain v cfg where uc: "uc = (v, cfg)" by (cases uc)
  have d: "distinct (map fst snap)" and v: "v \<notin> fst ` set snap"
    using Cons.prems uc by simp_all
  have none: "map_of snap v = None"
    using v by (simp add: map_of_eq_None_iff)
  show ?case
  proof (cases "u = v")
    case True
    show ?thesis
      unfolding uc using Cons.IH [OF d, of "send_for_user env p key v cfg st"] Cons.IH [OF d, of st]
        none True
      by (simp add: send_for_user_fields save_user_email_config_def update_conv')
  next
    case False
    show ?thesis
      unfolding uc using Cons.IH [OF d, of "send_for_user env p key v cfg st"] Cons.IH [OF d, of st]
        False
      by (simp add: send_for_user_fields save_user_email_config_def update_conv'
          split: option.splits)
  qed
qed

lemma due_key: "due now key cfg \<Longrightarrow> last_auto_sent_key cfg \<noteq> Some key"
  by (auto simp: due_def Let_def split: if_splits option.splits)


lemma tick_unfold:
  "\<exists>p rows. try_auto_send_week_plans env st
     = users_loop env p (date_key (tick_date env)) (st_cfgs st) (st\<lparr>st_periods := rows\<rparr>)"
proof -
  obtain rows p where r: "ensure_period (st_periods st) (tick_date env) = Inr (rows, p)"
    using ensure_period_total by blast
  obtain y w s e where q: "iso_week_period (tick_date env) = (y, w, s, e)"
    by (cases "iso_week_period (tick_date env)") auto
  have "period_key_str p = date_key (tick_date env)"
    using ensure_period_result(1,2) [OF r q] q by (simp add: period_key_str_def date_key_def)
  then show ?thesis
    using r by (auto simp: try_auto_send_week_plans_def tick_date_def)
qed

lemma tick_sends_distinct:
  assumes "distinct (map fst snap)"
  shows "distinct (tick_sends env p k snap)"
proof -
  define zs where
    "zs = map fst (filter (\<lambda>uc. due (env_now env) k (snd uc) \<and> has_plan env p (fst uc)) snap)"
  have "distinct zs"
    unfolding zs_def using assms by (rule distinct_map_filter)
  then have "distinct (map (\<lambda>u. (u, k)) zs)"
    by (simp add: distinct_map inj_on_def)
  moreover have "tick_sends env p k snap = map (\<lambda>u. (u, k)) zs"
    by (simp add: tick_sends_def zs_def comp_def)
  ultimately show ?thesis by simp
qed

lemma tick_effect:
  fixes env :: tick_env and st :: sched_state and u :: int
  assumes "distinct (map fst (st_cfgs st))"
  defines "st' \<equiv> try_auto_send_week_plans env st"
  defines "k \<equiv> date_key (tick_date env)"
  shows "map fst (st_cfgs st') = map fst (st_cfgs st)"
    and "\<exists>new. st_sent st' = st_sent st @ new \<and> distinct new
           \<and> (\<forall>uk \<in> set new. snd uk = k \<and> last_key st (fst uk) \<noteq> Some k
                 \<and> last_key st' (fst uk) = Some k)"
    and "last_key st u = Some k \<Longrightarrow> last_key st' u = Some k"
proof -
  obtain p rows where t: "st' = users_loop env p k (st_cfgs st) (st\<lparr>st_periods := rows\<rparr>)"
    using tick_unfold [of env st] unfolding st'_def k_def by blast
  let ?st0 = "st\<lparr>st_periods := rows\<rparr>"
  have cf: "st_cfgs ?st0 = st_cfgs st" "st_sent ?st0 = st_sent st" by simp_all
  show "map fst (st_cfgs st') = map fst (st_cfgs st)"
    unfolding t using users_loop_keys [of "st_cfgs st" ?st0 env p k] by simp
  have mo: "map_of (st_cfgs st') v =
       (case map_of (st_cfgs st) v of
          None \<Rightarrow> None
        | Some cfg \<Rightarrow> if due (env_now env) k cfg then Some (stamp env k cfg)
                      else Some cfg)" for v
    unfolding t using users_loop_map_of [OF assms(1), of env p k ?st0 v]
    by (simp split: option.splits)
  have lk: "last_key st' v =
       (case map_of (st_cfgs st) v of
          None \<Rightarrow> None
        | Some cfg \<Rightarrow> if due (env_now env) k cfg then Some k else last_auto_sent_key cfg)" for v
    unfolding last_key_def mo by (simp add: stamp_def split: option.splits)
  have sent: "st_sent st' = st_sent st @ tick_sends env p k (st_cfgs st)"
    unfolding t by (simp add: users_loop_sent)
  have new: "snd uk = k \<and> last_key st (fst uk) \<noteq> Some k \<and> last_key st' (fst uk) = Some k"
    if "uk \<in> set (tick_sends env p k (st_cfgs st))" for uk
  proof -
    from that obtain v cfg where uc: "(v, cfg) \<in> set (st_cfgs st)" "due (env_now env) k cfg"
      "uk = (v, k)"
      by (auto simp: tick_sends_def)
    have m: "map_of (st_cfgs st) v = Some cfg"
      using uc(1) assms(1) by simp
    show ?thesis
      using uc(2,3) m due_key [OF uc(2)] by (simp add: lk) (simp add: last_key_def)
  qed
  show "\<exists>new. st_sent st' = st_sent st @ new \<and> distinct new
           \<and> (\<forall>uk \<in> set new. snd uk = k \<and> last_key st (fst uk) \<noteq> Some k
                 \<and> last_key st' (fst uk) = Some k)"
    using sent tick_sends_distinct [OF assms(1)] new by blast
  show "last_key st' u = Some k" if "last_key st u = Some k"
  proof -
    from that obtain cfg where c: "map_of (st_cfgs st) u = Some cfg"
      "last_auto_sent_key cfg = Some k"
      by (auto simp: last_key_def split: option.splits)
    then have "\<not> due (env_now env) k cfg"
      using due_key by blast
    with c show ?thesis by (simp add: lk)
  qed
qed

lemma sent_ok_Cons:
  "sent_ok (env # envs) st uk \<Longrightarrow>
     \<exists>d0. date_key d0 = snd uk \<and> d0 \<le> tick_date env \<and> list_all (\<lambda>e. d0 \<le> tick_date e) envs"
  "sent_ok (env # envs) st uk \<Longrightarrow> date_key (tick_date env) = snd uk \<Longrightarrow>
     last_key st (fst uk) = Some (snd uk)"
  by (auto simp: sent_ok_def)

lemma sent_ok_old:
  assumes ok: "sent_ok (env # envs) st uk"
    and later: "list_all (\<lambda>e. tick_date env \<le> tick_date e) envs"
    and keep: "last_key st (fst uk) = Some (date_key (tick_date env)) \<Longrightarrow>
        last_key st' (fst uk) = Some (date_key (tick_date env))"
  shows "sent_ok envs st' uk"
proof -
  from sent_ok_Cons(1) [OF ok] obtain d0 where d0: "date_key d0 = snd uk"
    "d0 \<le> tick_date env" "list_all (\<lambda>e. d0 \<le> tick_date e) envs" by blast
  have "last_key st' (fst uk) = Some (snd uk)"
    if ex: "list_ex (\<lambda>e. date_key (tick_date e) = snd uk) envs"
  proof -
    from ex obtain e where e: "e \<in> set envs" "date_key (tick_date e) = snd uk"
      by (auto simp: list_ex_iff)
    have "tick_date env \<le> tick_date e"
      using later e(1) by (simp add: list_all_iff)
    then have "date_key (tick_date env) = date_key d0"
      using d0(1,2) e(2) by (intro date_key_convex [of d0 "tick_date env" "tick_date e"]) simp_all
    then have k: "date_key (tick_date env) = snd uk"
      using d0(1) by simp
    from sent_ok_Cons(2) [OF ok k] have "last_key st (fst uk) = Some (date_key (tick_date env))"
      using k by simp
    from keep [OF this] k show ?thesis by simp
  qed
  with d0(1,3) show ?thesis
    unfolding sent_ok_def by blast
qed

lemma sent_ok_new:
  assumes "snd uk = date_key (tick_date env)"
    and "last_key st' (fst uk) = Some (date_key (tick_date env))"
    and "list_all (\<lambda>e. tick_date env \<le> tick_date e) envs"
  shows "sent_ok envs st' uk"
  unfolding sent_ok_def using assms by auto

lemma sorted_later:
  "sorted (map tick_date (env # envs)) \<Longrightarrow> list_all (\<lambda>e. tick_date env \<le> tick_date e) envs"
  by (simp add: list_all_iff)

lemma sent_inv_step:
  assumes inv: "sent_inv (env # envs) st" and srt: "sorted (map tick_date (env # envs))"
  shows "sent_inv envs (try_auto_send_week_plans env st)"
proof -
  let ?st' = "try_auto_send_week_plans env st"
  let ?k = "date_key (tick_date env)"
  have ids: "distinct (map fst (st_cfgs st))" and ds: "distinct (st_sent st)"
    and oks: "list_all (sent_ok (env # envs) st) (st_sent st)"
    using inv by (simp_all add: sent_inv_def)
  note later = sorted_later [OF srt]
  note eff = tick_effect [OF ids, where env = env]
  obtain new where new: "st_sent ?st' = st_sent st @ new" "distinct new"
    "\<And>uk. uk \<in> set new \<Longrightarrow> snd uk = ?k \<and> last_key st (fst uk) \<noteq> Some ?k
        \<and> last_key ?st' (fst uk) = Some ?k"
    using eff(2) by blast
  have disj: "set (st_sent st) \<inter> set new = {}"
  proof (rule ccontr)
    assume "set (st_sent st) \<inter> set new \<noteq> {}"
    then obtain uk where uk: "uk \<in> set (st_sent st)" "uk \<in> set new" by blast
    have "sent_ok (env # envs) st uk"
      using oks uk(1) by (simp add: list_all_iff)
    from sent_ok_Cons(2) [OF this] new(3) [OF uk(2)] show False by simp
  qed
  have each: "sent_ok envs ?st' uk" if "uk \<in> set (st_sent ?st')" for uk
  proof (cases "uk \<in> set new")
    case True
    from new(3) [OF True] show ?thesis
      by (intro sent_ok_new [OF _ _ later]) simp_all
  next
    case False
    with that new(1) have "uk \<in> set (st_sent st)" by simp
    then have "sent_ok (env # envs) st uk"
      using oks by (simp add: list_all_iff)
    then show ?thesis
      using later eff(3) by (rule sent_ok_old)
  qed
  have "distinct (st_sent ?st')"
    using new(1,2) ds disj by simp
  moreover have "distinct (map fst (st_cfgs ?st'))"
    using eff(1) ids by simp
  moreover have "list_all (sent_ok envs ?st') (st_sent ?st')"
    using each by (simp add: list_all_iff)
  ultimately show ?thesis
    by (simp add: sent_inv_def)
qed

lemma sent_inv_run:
  "sent_inv envs st \<Longrightarrow> sorted (map tick_date envs) \<Longrightarrow>
     distinct (st_sent (email_scheduler_loop envs st))"
proof (induction envs arbitrary: st)
  case Nil
  then show ?case by (simp add: sent_inv_def)
next
  case (Cons env envs)
  from sent_inv_step [OF Cons.prems] Cons.prems(2) Cons.IH show ?case by simp
qed

lemma run_example:
  "st_sent (email_scheduler_loop [tick_0930, tick_1000] state_0) = [(1, ''2024-W5'')]"
  by code_simp

lemma run_example_log:
  "st_log (email_scheduler_loop [tick_0930, tick_1000] state_0) = [Email_auto_send_failed 1 ''2024-W5'']"
  by code_simp

text \<open>
  Claim C8.  In every sequence of scheduler ticks, taken in the order they run (their
  dates do not decrease) over configuration files with one file per user,
  \<^verbatim>\<open>send_plan_email\<close> is called at most once for each user and period key.  In each
  tick every call is made for a user whose stored key differed from the tick's key, and
  after the tick that user's stored key is the tick's key, whether the send returned or
  raised; so a later tick with the same key makes no call for that user.
\<close>

theorem at_most_one_send_per_period:
  assumes "sorted (map tick_date envs)" "distinct (map fst (st_cfgs st))" "st_sent st = []"
  shows "distinct (st_sent (email_scheduler_loop envs st))
    \<and> (\<forall>env s. distinct (map fst (st_cfgs s)) \<longrightarrow>
          (\<exists>new. st_sent (try_auto_send_week_plans env s) = st_sent s @ new
             \<and> (\<forall>uk \<in> set new. snd uk = date_key (tick_date env)
                   \<and> last_key s (fst uk) \<noteq> Some (snd uk)
                   \<and> last_key (try_auto_send_week_plans env s) (fst uk) = Some (snd uk))))"
proof -
  have "sent_inv envs st"
    using assms(2,3) by (simp add: sent_inv_def)
  then have "distinct (st_sent (email_scheduler_loop envs st))"
    using assms(1) by (rule sent_inv_run)
  moreover have "\<exists>new. st_sent (try_auto_send_week_plans env s) = st_sent s @ new
             \<and> (\<forall>uk \<in> set new. snd uk = date_key (tick_date env)
                   \<and> last_key s (fst uk) \<noteq> Some (snd uk)
                   \<and> last_key (try_auto_send_week_plans env s) (fst uk) = Some (snd uk))"
    if "distinct (map fst (st_cfgs s))" for env s
    using tick_effect(2) [OF that, where env = env] by auto
  ultimately show ?thesis by blast
qed

text \<open>
  Two ticks on the same Thursday: the send of the first raises, the key is stored, and
  the second tick sends nothing.
\<close>

theorem at_most_one_send_per_period_witness:
  "sorted (map tick_date [tick_0930, tick_1000])
   \<and> distinct (map fst (st_cfgs state_0)) \<and> st_sent state_0 = []
   \<and> distinct (st_sent (email_scheduler_loop [tick_0930, tick_1000] state_0))
   \<and> st_sent (email_scheduler_loop [tick_0930, tick_1000] state_0) = [(1, ''2024-W5'')]
   \<and> st_log (email_scheduler_loop [tick_0930, tick_1000] state_0)
         = [Email_auto_send_failed 1 ''2024-W5'']"
proof -
  have h1: "sorted (map tick_date [tick_0930, tick_1000])"
    by (simp add: tick_date_def tick_0930_def tick_1000_def)
  have h2: "distinct (map fst (st_cfgs state_0))"
    by (simp add: state_0_def)
  have h3: "st_sent state_0 = []"
    by (simp add: state_0_def)
  from at_most_one_send_per_period [OF h1 h2 h3]
  have "distinct (st_sent (email_scheduler_loop [tick_0930, tick_1000] state_0))"
    by blast
  with h1 h2 h3 run_example run_example_log show ?thesis
    by (simp only: simp_thms)
qed

end
